theory Spec2Isabelle
  imports Complex_Main "HOL-Library.Word" "HOL-Library.Log_Nat"
begin

unbundle bit_operations_syntax

section \<open>Data model\<close>

text \<open>
  \<^verbatim>\<open>typedef unsigned int uint32;\<close> is a 32-bit word. A slot of the table is the struct
  \<^verbatim>\<open>TableEntry { uint32 key; uint32 value; }\<close>; the class \<^verbatim>\<open>GpuHashTable\<close> owns the array
  \<^verbatim>\<open>table\<close> (a list here) together with the counters \<^verbatim>\<open>used_buckets\<close> and \<^verbatim>\<open>capacity\<close>.
\<close>

type_synonym uint32 = "32 word"

record TableEntry =
  key :: uint32
  "value" :: uint32

record GpuHashTable =
  table :: "TableEntry list"
  used_buckets :: uint32
  capacity :: uint32

text \<open>
  What a call can do besides returning: \<open>Fatal\<close> is the \<^verbatim>\<open>exit(1)\<close> of
  \<^verbatim>\<open>CUDA_CHECK_ERROR\<close> after a failed allocation, \<open>Undefined\<close> is behaviour the language
  leaves undefined (a remainder by zero, a float to int conversion out of range, a read of
  memory never written), \<open>Hang\<close> is a kernel whose \<^verbatim>\<open>while (1)\<close> never leaves, so that
  \<^verbatim>\<open>cudaDeviceSynchronize\<close> never comes back.
\<close>

datatype 'a outcome = Return 'a | Fatal | Undefined | Hang

text \<open>
  Modelled from the spec: the macro \<^verbatim>\<open>KEY_INVALID\<close> comes from \<^verbatim>\<open>test_map.hpp\<close>, which is not
  among the sources. The specification fixes it as the reserved key with all 32 bits set.
\<close>

definition KEY_INVALID :: uint32 where
  "KEY_INVALID = - 1"

text \<open>
  \<^verbatim>\<open>cudaMemset(p, c, bytes)\<close> stores the low byte of \<open>c\<close> in every byte, so every 32-bit
  field of every entry becomes that byte four times.
\<close>

definition cudaMemset_word :: "uint32 \<Rightarrow> uint32" where
  "cudaMemset_word c =
     (let b = c AND 255 in b OR push_bit 8 b OR push_bit 16 b OR push_bit 24 b)"

definition cudaMemset :: "uint32 \<Rightarrow> nat \<Rightarrow> TableEntry list" where
  "cudaMemset c n = replicate n \<lparr>key = cudaMemset_word c, value = cudaMemset_word c\<rparr>"

section \<open>Hash function\<close>

definition hashFunc :: "uint32 \<Rightarrow> uint32" where
  "hashFunc k =
     (let hash = k;
          hash = NOT hash + push_bit 15 hash;
          hash = hash XOR drop_bit 12 hash;
          hash = hash + push_bit 2 hash;
          hash = hash XOR drop_bit 4 hash;
          hash = (hash + push_bit 3 hash) + push_bit 11 hash;
          hash = hash XOR drop_bit 16 hash
      in hash)"

section \<open>Single precision arithmetic of the load factor\<close>

text \<open>
  \<^verbatim>\<open>loadFactor\<close> divides two \<^verbatim>\<open>float\<close>s and \<^verbatim>\<open>insertBatch\<close> compares the quotient with
  \<^verbatim>\<open>0.8f\<close> and divides by \<^verbatim>\<open>0.5f\<close>. Every operand is a converted \<^verbatim>\<open>uint32\<close>, so only
  values that are not negative occur: a finite one is the rational it denotes, and a
  division by zero gives infinity or a NaN. Each operation rounds its exact result to the
  nearest number with a 24-bit significand, ties to the even significand. The operands
  here lie between \<open>2\<^sup>-\<^sup>3\<^sup>2\<close> and \<open>2\<^sup>3\<^sup>3\<close>, far inside the exponent range of the format, so the
  exponent is left unbounded.
\<close>

datatype float32 = Finite rat | PInf | NaN

definition ilog2 :: "rat \<Rightarrow> int" where
  \<comment> \<open>for \<open>q > 0\<close>, the exponent \<open>e\<close> with \<open>2\<^sup>e \<le> q < 2\<^sup>e\<^sup>+\<^sup>1\<close>\<close>
  "ilog2 q =
     (let (a, b) = quotient_of q; e0 = bitlen a - bitlen b
      in if 2 powi e0 \<le> q then e0 else e0 - 1)"

definition round_half_even :: "rat \<Rightarrow> int" where
  "round_half_even q =
     (let f = \<lfloor>q\<rfloor>; d = q - of_int f
      in if d < 1 / 2 then f else if 1 / 2 < d then f + 1
         else if even f then f else f + 1)"

definition round32 :: "rat \<Rightarrow> rat" where
  "round32 q =
     (if q = 0 then 0
      else let ulp = 2 powi (ilog2 q - 23)
           in of_int (round_half_even (q / ulp)) * ulp)"

definition float_of_uint32 :: "uint32 \<Rightarrow> float32" where
  "float_of_uint32 w = Finite (round32 (of_nat (unat w)))"

fun float_div :: "float32 \<Rightarrow> float32 \<Rightarrow> float32" where
  "float_div (Finite a) (Finite b) =
     (if b = 0 then (if a = 0 then NaN else PInf) else Finite (round32 (a / b)))"
| "float_div (Finite a) PInf = Finite 0"
| "float_div PInf (Finite b) = PInf"
| "float_div _ _ = NaN"

fun float_gt :: "float32 \<Rightarrow> float32 \<Rightarrow> bool" where
  "float_gt (Finite a) (Finite b) = (b < a)"
| "float_gt PInf (Finite b) = True"
| "float_gt _ _ = False"

text \<open>The implicit conversion of a \<^verbatim>\<open>float\<close> to \<^verbatim>\<open>int\<close> truncates; outside the range of
  \<^verbatim>\<open>int\<close> it is undefined.\<close>

fun int_of_float :: "float32 \<Rightarrow> int option" where
  "int_of_float (Finite q) = (if \<lfloor>q\<rfloor> < 2 ^ 31 then Some \<lfloor>q\<rfloor> else None)"
| "int_of_float _ = None"

definition MIN_LOAD_FACTOR :: float32 where
  "MIN_LOAD_FACTOR = Finite (round32 (1 / 2))"

definition MAX_LOAD_FACTOR :: float32 where
  "MAX_LOAD_FACTOR = Finite (round32 (4 / 5))"

definition loadFactor :: "uint32 \<Rightarrow> uint32 \<Rightarrow> float32" where
  "loadFactor used cap = float_div (float_of_uint32 used) (float_of_uint32 cap)"

section \<open>Kernel launches\<close>

text \<open>
  A launch \<^verbatim>\<open>kernel<<<nBlocks, nThreads>>>(...)\<close> followed by \<^verbatim>\<open>cudaDeviceSynchronize\<close> runs one
  thread for every index of the grid. Threads meet only in \<^verbatim>\<open>atomicCAS\<close> and \<^verbatim>\<open>atomicAdd\<close>;
  the model runs the threads one after the other, each to its \<^verbatim>\<open>return\<close>, in an order
  \<open>sched\<close> that the caller of the model chooses, so that nothing proved depends on the
  order the device picks. \<^verbatim>\<open>estimateBlockSize\<close> makes the grid at least as large as the
  number of items, so a schedule lists every index below that number once.
\<close>

definition obind :: "'a outcome \<Rightarrow> ('a \<Rightarrow> 'b outcome) \<Rightarrow> 'b outcome" where
  "obind m f = (case m of Return x \<Rightarrow> f x | Fatal \<Rightarrow> Fatal | Undefined \<Rightarrow> Undefined | Hang \<Rightarrow> Hang)"

fun launch :: "(nat \<Rightarrow> 's \<Rightarrow> 's outcome) \<Rightarrow> nat list \<Rightarrow> 's \<Rightarrow> 's outcome" where
  "launch kern [] s = Return s"
| "launch kern (idx # sched) s = obind (kern idx s) (launch kern sched)"

definition covers :: "nat list \<Rightarrow> nat \<Rightarrow> bool" where
  "covers sched n = (distinct sched \<and> (\<forall>idx \<in> set [0..<n]. idx \<in> set sched))"

definition atomicCAS_key :: "TableEntry list \<Rightarrow> nat \<Rightarrow> uint32 \<Rightarrow> uint32 \<Rightarrow> uint32 \<times> TableEntry list" where
  "atomicCAS_key tbl i compare v =
     (let old = key (tbl ! i)
      in (old, if old = compare then tbl[i := (tbl ! i)\<lparr>key := v\<rparr>] else tbl))"

section \<open>Linear probing\<close>

text \<open>
  Both inserting kernels walk the slots from the home bucket with
  \<^verbatim>\<open>generated_hash = (generated_hash + 1) % capacity\<close> and give up when the walk is back at the
  home bucket. \<open>probe_left\<close> counts the steps the walk has left; it is the measure that
  makes the two loops total functions.
\<close>

definition probe_left :: "uint32 \<Rightarrow> uint32 \<Rightarrow> uint32 \<Rightarrow> nat" where
  "probe_left cap k h =
     (if cap = 0 then unat (hashFunc k - h - 1)
      else if cap \<le> h then Suc (unat cap)
      else if h < hashFunc k mod cap then unat (hashFunc k mod cap) - unat h
      else unat (hashFunc k mod cap) + unat cap - unat h)"

lemma unat_succ_mod:
  fixes h cap :: uint32
  assumes "h < cap"
  shows "unat ((h + 1) mod cap) = (if Suc (unat h) = unat cap then 0 else Suc (unat h))"
proof -
  have lt: "unat h < unat cap" using assms by (simp add: word_less_nat_alt)
  have "unat cap < 2 ^ 32" using unsigned_less [of cap, where 'a = nat] by simp
  with lt have "unat (h + 1) = Suc (unat h)" by (simp add: unat_word_ariths)
  with lt show ?thesis by (simp add: unat_mod)
qed

lemma probe_left_decreases:
  fixes h cap :: uint32
  assumes "(h + 1) mod cap \<noteq> hashFunc k mod cap"
  shows "probe_left cap k ((h + 1) mod cap) < probe_left cap k h"
proof (cases "cap = 0")
  case True
  then have ne: "hashFunc k - h - 1 \<noteq> 0" using assms by (auto simp: algebra_simps)
  have "hashFunc k - (h + 1) - 1 = (hashFunc k - h - 1) - 1" by simp
  moreover have "unat ((hashFunc k - h - 1) - 1) = unat (hashFunc k - h - 1) - 1"
    using ne by (rule unat_minus_one)
  moreover have "0 < unat (hashFunc k - h - 1)" using ne by (simp add: unat_gt_0)
  ultimately show ?thesis using True by (simp add: probe_left_def)
next
  case False
  have hm: "hashFunc k mod cap < cap" using False by (simp add: word_mod_less_divisor word_neq_0_conv)
  have nm: "(h + 1) mod cap < cap" using False by (simp add: word_mod_less_divisor word_neq_0_conv)
  show ?thesis
  proof (cases "cap \<le> h")
    case True
    have "probe_left cap k ((h + 1) mod cap) \<le> unat cap"
      using False nm hm by (auto simp: probe_left_def word_less_nat_alt word_le_nat_alt)
    then show ?thesis using True False by (simp add: probe_left_def)
  next
    case hl: False
    then have hlt: "h < cap" by simp
    have ne: "unat ((h + 1) mod cap) \<noteq> unat (hashFunc k mod cap)"
      using assms by (simp add: word_unat_eq_iff)
    have a: "unat h < unat cap" using hlt by (simp add: word_less_nat_alt)
    have b: "unat (hashFunc k mod cap) < unat cap" using hm by (simp add: word_less_nat_alt)
    have c: "unat ((h + 1) mod cap) < unat cap" using nm by (simp add: word_less_nat_alt)
    have "probe_left cap k h =
       (if unat h < unat (hashFunc k mod cap) then unat (hashFunc k mod cap) - unat h
        else unat (hashFunc k mod cap) + unat cap - unat h)"
      using False hl by (simp add: probe_left_def word_less_nat_alt)
    moreover have "probe_left cap k ((h + 1) mod cap) =
       (if unat ((h + 1) mod cap) < unat (hashFunc k mod cap)
        then unat (hashFunc k mod cap) - unat ((h + 1) mod cap)
        else unat (hashFunc k mod cap) + unat cap - unat ((h + 1) mod cap))"
      using False nm by (simp add: probe_left_def word_less_nat_alt word_le_nat_alt)
    ultimately show ?thesis using a b c ne unat_succ_mod[OF hlt]
      by (simp split: if_splits)
  qed
qed

section \<open>Construction\<close>

text \<open>
  \<^verbatim>\<open>GpuHashTable(int size)\<close>, with \<open>sz\<close> for \<^verbatim>\<open>size\<close>. The allocator is an outside collaborator that is taken to
  grant what it is asked for; a negative \<^verbatim>\<open>size\<close> asks for close to \<open>2\<^sup>6\<^sup>4\<close> bytes, which
  no allocator grants.
\<close>

definition GpuHashTable_constructor :: "int \<Rightarrow> GpuHashTable outcome" where
  "GpuHashTable_constructor sz =
     (if sz < 0 then Fatal
      else Return \<lparr>table = cudaMemset KEY_INVALID (nat sz),
                   used_buckets = 0,
                   capacity = word_of_int sz\<rparr>)"

section \<open>Reshape\<close>

function kernelReshape_loop ::
  "TableEntry \<Rightarrow> TableEntry list \<Rightarrow> uint32 \<Rightarrow> uint32 \<Rightarrow> TableEntry list" where
  "kernelReshape_loop old_entry new_table new_capacity generated_hash =
     (let (old_key, new_table) =
            atomicCAS_key new_table (unat generated_hash) KEY_INVALID (key old_entry)
      in if old_key = KEY_INVALID
         then new_table[unat generated_hash :=
                (new_table ! unat generated_hash)\<lparr>value := value old_entry\<rparr>]
         else let generated_hash = (generated_hash + 1) mod new_capacity
              in if generated_hash = hashFunc (key old_entry) mod new_capacity then new_table
                 else kernelReshape_loop old_entry new_table new_capacity generated_hash)"
  by pat_completeness auto
termination
  by (relation "measure (\<lambda>(old_entry, new_table, new_capacity, generated_hash).
        probe_left new_capacity (key old_entry) generated_hash)")
     (auto intro: probe_left_decreases)

definition kernelReshape ::
  "TableEntry list \<Rightarrow> uint32 \<Rightarrow> TableEntry list \<Rightarrow> uint32 \<Rightarrow> nat \<Rightarrow> TableEntry list outcome" where
  "kernelReshape old_table old_capacity new_table new_capacity idx =
     (if unat old_capacity \<le> idx \<or> key (old_table ! idx) = KEY_INVALID then Return new_table
      else if new_capacity = 0 then Undefined
      else Return (kernelReshape_loop (old_table ! idx) new_table new_capacity
                     (hashFunc (key (old_table ! idx)) mod new_capacity)))"

definition reshape :: "GpuHashTable \<Rightarrow> int \<Rightarrow> nat list \<Rightarrow> GpuHashTable outcome" where
  "reshape t numBucketsReshape sched =
     (let old_table = table t; old_capacity = capacity t
      in if numBucketsReshape < 0 then Fatal
         else let new_table = cudaMemset KEY_INVALID (nat numBucketsReshape);
                  new_capacity = word_of_int numBucketsReshape
              in obind (launch (\<lambda>idx new_table.
                          kernelReshape old_table old_capacity new_table new_capacity idx)
                        sched new_table)
                   (\<lambda>new_table. Return (t\<lparr>table := new_table, capacity := new_capacity\<rparr>)))"

section \<open>Insert\<close>

function kernelInsert_loop ::
  "TableEntry list \<Rightarrow> uint32 \<Rightarrow> uint32 \<Rightarrow> uint32 \<Rightarrow> uint32 \<Rightarrow> uint32
     \<Rightarrow> TableEntry list \<times> uint32" where
  "kernelInsert_loop tbl cap k v generated_hash count_updated_keys =
     (let (old_key, tbl) = atomicCAS_key tbl (unat generated_hash) KEY_INVALID k
      in if old_key = KEY_INVALID \<or> old_key = k
         then (tbl[unat generated_hash := (tbl ! unat generated_hash)\<lparr>value := v\<rparr>],
               if old_key = k then count_updated_keys + 1 else count_updated_keys)
         else let generated_hash = (generated_hash + 1) mod cap
              in if generated_hash = hashFunc k mod cap then (tbl, count_updated_keys)
                 else kernelInsert_loop tbl cap k v generated_hash count_updated_keys)"
  by pat_completeness auto
termination
  by (relation "measure (\<lambda>(tbl, cap, k, v, generated_hash, count_updated_keys).
        probe_left cap k generated_hash)")
     (auto intro: probe_left_decreases)

definition kernelInsert ::
  "uint32 \<Rightarrow> uint32 list \<Rightarrow> uint32 list \<Rightarrow> uint32 \<Rightarrow> nat
     \<Rightarrow> TableEntry list \<times> uint32 \<Rightarrow> (TableEntry list \<times> uint32) outcome" where
  "kernelInsert cap device_keys device_values numKeys idx st =
     (if unat numKeys \<le> idx then Return st
      else if cap = 0 then Undefined
      else Return (kernelInsert_loop (fst st) cap (device_keys ! idx) (device_values ! idx)
                     (hashFunc (device_keys ! idx) mod cap) (snd st)))"

text \<open>
  \<^verbatim>\<open>insertBatch(keys, values, numKeys)\<close>: the two host arrays are the lists \<open>keys\<close> and
  \<open>values\<close>, and \<^verbatim>\<open>numKeys\<close> is the length of \<open>keys\<close>. \<open>rsched\<close> is the order of the
  threads of the reshape kernel, should it be launched, \<open>isched\<close> that of the insert kernel.
\<close>

definition insertBatch ::
  "GpuHashTable \<Rightarrow> uint32 list \<Rightarrow> uint32 list \<Rightarrow> nat list \<Rightarrow> nat list
     \<Rightarrow> (bool \<times> GpuHashTable) outcome" where
  "insertBatch t keys values rsched isched =
     (let numKeys = length keys
      in if numKeys = 0 then Return (False, t)
         else if length values < numKeys then Undefined
         else
           let projected = used_buckets t + word_of_nat numKeys;
               lf = loadFactor projected (capacity t)
           in obind
                (if float_gt lf MAX_LOAD_FACTOR
                 then (case int_of_float (float_div (float_of_uint32 projected) MIN_LOAD_FACTOR) of
                         None \<Rightarrow> Undefined
                       | Some numBucketsReshape \<Rightarrow> reshape t numBucketsReshape rsched)
                 else Return t)
                (\<lambda>t. obind
                   (launch (kernelInsert (capacity t) (take numKeys keys) (take numKeys values)
                              (word_of_nat numKeys))
                      isched (table t, 0))
                   (\<lambda>(tbl, count_updated_keys).
                      Return (True, t\<lparr>table := tbl,
                                       used_buckets := used_buckets t
                                         + (word_of_nat numKeys - count_updated_keys)\<rparr>))))"

section \<open>Get\<close>

text \<open>
  The loop of \<^verbatim>\<open>kernelGet\<close> has no exit but the match, so it is a partial function:
  \<open>None\<close> is the loop that never leaves.
\<close>

partial_function (option) kernelGet_loop ::
  "TableEntry list \<Rightarrow> uint32 \<Rightarrow> uint32 \<Rightarrow> uint32 \<Rightarrow> uint32 option" where
  "kernelGet_loop tbl cap k generated_hash =
     (if k = key (tbl ! unat generated_hash) then Some (value (tbl ! unat generated_hash))
      else kernelGet_loop tbl cap k ((generated_hash + 1) mod cap))"

declare kernelGet_loop.simps [code]

text \<open>
  \<^verbatim>\<open>device_values\<close> comes from \<^verbatim>\<open>cudaMalloc\<close> and holds nothing until a thread stores its
  result: a cell is \<open>None\<close> until then, and copying such a cell back to the host is
  undefined.
\<close>

definition kernelGet ::
  "TableEntry list \<Rightarrow> uint32 \<Rightarrow> uint32 list \<Rightarrow> uint32 \<Rightarrow> nat
     \<Rightarrow> uint32 option list \<Rightarrow> uint32 option list outcome" where
  "kernelGet tbl cap device_keys numKeys idx device_values =
     (if unat numKeys \<le> idx then Return device_values
      else if cap = 0 then Undefined
      else case kernelGet_loop tbl cap (device_keys ! idx) (hashFunc (device_keys ! idx) mod cap) of
             None \<Rightarrow> Hang
           | Some v \<Rightarrow> Return (device_values[idx := Some v]))"

datatype host_values = NULL | Values "uint32 list"

text \<open>\<^verbatim>\<open>getBatch\<close> hands back the host array; the table object it was called on comes
  back with it, so that what the call does to the object can be stated.\<close>

definition getBatch ::
  "GpuHashTable \<Rightarrow> uint32 list \<Rightarrow> nat list \<Rightarrow> (host_values \<times> GpuHashTable) outcome" where
  "getBatch t keys sched =
     (let numKeys = length keys
      in if numKeys = 0 then Return (NULL, t)
         else obind
                (launch (kernelGet (table t) (capacity t) keys (word_of_nat numKeys))
                   sched (replicate numKeys None))
                (\<lambda>device_values.
                   if None \<in> set device_values then Undefined
                   else Return (Values (map the device_values), t)))"

section \<open>Vocabulary of the proofs\<close>

text \<open>
  None of the definitions of this section is part of the program: they name what the
  program's loops compute, so that the theorems can speak about it. \<open>scan\<close> is the walk
  of linear probing, \<open>first_slot\<close> the first slot it stops at when it starts at the home
  bucket of a key, \<open>lookup\<close> the value a lookup of a key ends with, \<open>live_keys\<close> the keys
  stored in a table, \<open>probe_inv\<close> the invariant of the table (every stored key sits in
  the first slot that its own probe walk stops at), \<open>f32\<close> the value of a \<^verbatim>\<open>uint32\<close>
  after its conversion to \<^verbatim>\<open>float\<close>, and \<open>resize_needed\<close> the test of \<^verbatim>\<open>insertBatch\<close>.
  An \<open>operation\<close> is a call of a public member function, \<open>run\<close> a caller that makes such
  calls one after the other on one table, \<open>sch n\<close> being the order in which the \<open>n\<close> threads
  of a launch run; \<open>contents\<close> is the map from keys to values that a sequence of calls is
  meant to build (each thread of an insert writing its pair, in the order of the launch), \<open>admissible\<close> the sequences that keep to the caller's side of the contract,
  \<open>consistent\<close> the invariant of the table object, and \<open>represents\<close> its agreement with such
  a map.
\<close>

definition f32 :: "nat \<Rightarrow> nat" where
  "f32 n = nat \<lfloor>round32 (of_nat n)\<rfloor>"

definition max_projected :: nat where
  "max_projected = 2 ^ 30 - 64"

fun float_le :: "float32 \<Rightarrow> float32 \<Rightarrow> bool" where
  "float_le (Finite a) (Finite b) = (a \<le> b)"
| "float_le (Finite a) PInf = True"
| "float_le PInf PInf = True"
| "float_le _ _ = False"

fun scan :: "(nat \<Rightarrow> bool) \<Rightarrow> nat \<Rightarrow> nat \<Rightarrow> nat \<Rightarrow> nat option" where
  "scan P n h 0 = None"
| "scan P n h (Suc f) = (if P h then Some h else scan P n (Suc h mod n) f)"

definition dist :: "nat \<Rightarrow> nat \<Rightarrow> nat \<Rightarrow> nat" where
  "dist n h i = (i + n - h) mod n"

definition is_first :: "(nat \<Rightarrow> bool) \<Rightarrow> nat \<Rightarrow> nat \<Rightarrow> nat \<Rightarrow> bool" where
  "is_first P n h i = (i < n \<and> P i \<and> (\<forall>i'<n. dist n h i' < dist n h i \<longrightarrow> \<not> P i'))"

definition empty_or :: "TableEntry list \<Rightarrow> uint32 \<Rightarrow> nat \<Rightarrow> bool" where
  "empty_or tbl k i = (key (tbl ! i) = KEY_INVALID \<or> key (tbl ! i) = k)"

definition is_empty :: "TableEntry list \<Rightarrow> nat \<Rightarrow> bool" where
  "is_empty tbl i = (key (tbl ! i) = KEY_INVALID)"

definition has_key :: "TableEntry list \<Rightarrow> uint32 \<Rightarrow> nat \<Rightarrow> bool" where
  "has_key tbl k i = (key (tbl ! i) = k)"

definition home :: "uint32 \<Rightarrow> uint32 \<Rightarrow> nat" where
  "home cap k = unat (hashFunc k mod cap)"

definition first_slot :: "(nat \<Rightarrow> bool) \<Rightarrow> uint32 \<Rightarrow> uint32 \<Rightarrow> nat option" where
  "first_slot P cap k = scan P (unat cap) (home cap k) (unat cap)"

definition probe_inv :: "TableEntry list \<Rightarrow> uint32 \<Rightarrow> bool" where
  "probe_inv tbl cap =
     (\<forall>i<length tbl. key (tbl ! i) \<noteq> KEY_INVALID \<longrightarrow>
        first_slot (empty_or tbl (key (tbl ! i))) cap (key (tbl ! i)) = Some i)"

definition lookup :: "TableEntry list \<Rightarrow> uint32 \<Rightarrow> uint32 \<Rightarrow> uint32 option" where
  "lookup tbl cap k = map_option (\<lambda>i. value (tbl ! i)) (first_slot (has_key tbl k) cap k)"

definition live_keys :: "TableEntry list \<Rightarrow> uint32 set" where
  "live_keys tbl = key ` set tbl - {KEY_INVALID}"

definition insert_entry :: "TableEntry list \<times> uint32 \<Rightarrow> uint32 \<Rightarrow> uint32 \<Rightarrow> uint32 \<Rightarrow> TableEntry list \<times> uint32" where
  "insert_entry st cap k v =
     (case first_slot (empty_or (fst st) k) cap k of
        None \<Rightarrow> st
      | Some i \<Rightarrow> ((fst st)[i := \<lparr>key = k, value = v\<rparr>],
                   if key (fst st ! i) = k then snd st + 1 else snd st))"

definition upd :: "uint32 \<Rightarrow> uint32 \<Rightarrow> (uint32 \<Rightarrow> uint32 option) \<Rightarrow> (uint32 \<Rightarrow> uint32 option)" where
  "upd k v m = (if k = KEY_INVALID then m else m(k \<mapsto> v))"

definition batch_map ::
  "uint32 list \<Rightarrow> uint32 list \<Rightarrow> nat \<Rightarrow> nat list \<Rightarrow> (uint32 \<Rightarrow> uint32 option) \<Rightarrow> (uint32 \<Rightarrow> uint32 option)" where
  "batch_map dk dv n sched m = fold (\<lambda>i m. if i < n then upd (dk ! i) (dv ! i) m else m) sched m"

definition collect :: "(nat \<Rightarrow> uint32 option) \<Rightarrow> nat \<Rightarrow> nat list \<Rightarrow> uint32 option list \<Rightarrow> uint32 option list" where
  "collect g n sched dv = fold (\<lambda>i dv. if i < n then dv[i := g i] else dv) sched dv"

definition active :: "TableEntry list \<Rightarrow> uint32 \<Rightarrow> nat \<Rightarrow> bool" where
  "active old oc i = (i < unat oc \<and> key (old ! i) \<noteq> KEY_INVALID)"

definition resize_needed :: "GpuHashTable \<Rightarrow> nat \<Rightarrow> bool" where
  "resize_needed t n =
     float_gt (loadFactor (used_buckets t + word_of_nat n) (capacity t)) MAX_LOAD_FACTOR"

datatype operation =
    InsertBatch "uint32 list" "uint32 list"
  | GetBatch "uint32 list"
  | Reshape int

fun perform :: "(nat \<Rightarrow> nat list) \<Rightarrow> operation \<Rightarrow> GpuHashTable \<Rightarrow> GpuHashTable outcome" where
  "perform sch (InsertBatch keys values) t =
     obind (insertBatch t keys values (sch (unat (capacity t))) (sch (length keys)))
       (\<lambda>r. Return (snd r))"
| "perform sch (GetBatch keys) t =
     obind (getBatch t keys (sch (length keys))) (\<lambda>r. Return (snd r))"
| "perform sch (Reshape numBucketsReshape) t =
     reshape t numBucketsReshape (sch (unat (capacity t)))"

fun run :: "(nat \<Rightarrow> nat list) \<Rightarrow> operation list \<Rightarrow> GpuHashTable \<Rightarrow> GpuHashTable outcome" where
  "run sch [] t = Return t"
| "run sch (x # ops) t = obind (perform sch x t) (run sch ops)"

fun batch_size :: "operation \<Rightarrow> nat" where
  "batch_size (InsertBatch keys values) = length keys"
| "batch_size _ = 0"

definition total_keys :: "operation list \<Rightarrow> nat" where
  "total_keys ops = sum_list (map batch_size ops)"

fun in_int_range :: "operation \<Rightarrow> bool" where
  "in_int_range (Reshape numBucketsReshape) = (numBucketsReshape < 2 ^ 31)"
| "in_int_range _ = True"

definition empty_table :: "nat \<Rightarrow> GpuHashTable" where
  "empty_table n = \<lparr>table = cudaMemset KEY_INVALID n, used_buckets = 0, capacity = word_of_nat n\<rparr>"

definition iota :: "nat \<Rightarrow> uint32 list" where
  "iota n = map word_of_nat [0..<n]"

definition result :: "'a outcome \<Rightarrow> 'a" where
  "result r = (case r of Return x \<Rightarrow> x)"

definition example_ops :: "operation list" where
  "example_ops = [InsertBatch [1, 2, 3] [10, 20, 30], GetBatch [1, 2, 3], Reshape 16,
                  InsertBatch [3, 4] [31, 40]]"

fun store_op ::
  "(nat \<Rightarrow> nat list) \<Rightarrow> operation \<Rightarrow> (uint32 \<rightharpoonup> uint32) \<Rightarrow> (uint32 \<rightharpoonup> uint32)" where
  "store_op sch (InsertBatch keys vals) m =
     fold (\<lambda>i m. if i < length keys then m(keys ! i \<mapsto> vals ! i) else m)
       (sch (length keys)) m"
| "store_op sch (GetBatch keys) m = m"
| "store_op sch (Reshape numBucketsReshape) m = m"

definition contents :: "(nat \<Rightarrow> nat list) \<Rightarrow> operation list \<Rightarrow> (uint32 \<rightharpoonup> uint32)" where
  "contents sch ops = fold (store_op sch) ops Map.empty"

fun admissible_op :: "operation \<Rightarrow> (uint32 \<rightharpoonup> uint32) \<Rightarrow> bool" where
  "admissible_op (InsertBatch keys vals) m =
     (KEY_INVALID \<notin> set keys \<and> length vals = length keys)"
| "admissible_op (GetBatch keys) m = (set keys \<subseteq> dom m \<and> length keys < 2 ^ 31)"
| "admissible_op (Reshape numBucketsReshape) m =
     (int (card (dom m)) \<le> numBucketsReshape \<and> numBucketsReshape < 2 ^ 31)"

fun admissible :: "(nat \<Rightarrow> nat list) \<Rightarrow> operation list \<Rightarrow> (uint32 \<rightharpoonup> uint32) \<Rightarrow> bool" where
  "admissible sch [] m = True"
| "admissible sch (x # ops) m = (admissible_op x m \<and> admissible sch ops (store_op sch x m))"

fun inserts_key :: "uint32 \<Rightarrow> operation \<Rightarrow> bool" where
  "inserts_key k (InsertBatch keys vals) = (k \<in> set keys)"
| "inserts_key k _ = False"

definition consistent :: "GpuHashTable \<Rightarrow> bool" where
  "consistent t =
     (length (table t) = unat (capacity t) \<and> probe_inv (table t) (capacity t)
      \<and> unat (used_buckets t) = card (live_keys (table t)))"

definition represents :: "GpuHashTable \<Rightarrow> (uint32 \<rightharpoonup> uint32) \<Rightarrow> bool" where
  "represents t m =
     (consistent t \<and> m KEY_INVALID = None
      \<and> (\<forall>k. k \<noteq> KEY_INVALID \<longrightarrow> lookup (table t) (capacity t) k = m k))"

definition example_table :: GpuHashTable where
  "example_table = result (run (upt 0) [InsertBatch [1, 2, 3] [10, 20, 30]] (empty_table 8))"

definition example_run :: "operation list" where
  "example_run = [InsertBatch [1, 2] [10, 20], InsertBatch [2, 3, 2] [21, 30, 22], GetBatch [1],
                  InsertBatch [3] [31], Reshape 5]"

section \<open>Rounding to single precision\<close>

lemma ilog2_bounds:
  assumes "0 < q"
  shows "2 powi (ilog2 q) \<le> q \<and> q < 2 powi (ilog2 q + 1)"
proof -
  obtain a b where ab: "quotient_of q = (a, b)" by (cases "quotient_of q")
  then have b: "0 < b" and q: "q = of_int a / of_int b"
    by (simp_all add: quotient_of_denom_pos quotient_of_div)
  with assms have a: "0 < a" by (simp add: zero_less_divide_iff)
  define la lb where "la = bitlen a" and "lb = bitlen b"
  have la: "2 ^ nat (la - 1) \<le> a" "a < 2 ^ nat la" and lb: "2 ^ nat (lb - 1) \<le> b" "b < 2 ^ nat lb"
    using bitlen_bounds[OF a] bitlen_bounds[OF b] by (simp_all add: la_def lb_def)
  have la1: "1 \<le> la" and lb1: "1 \<le> lb"
    using a b bitlen_eq_zero_iff[of a] bitlen_eq_zero_iff[of b] bitlen_nonneg[of a] bitlen_nonneg[of b]
    by (simp_all add: la_def lb_def)
  have ra: "(2::rat) powi (la - 1) \<le> of_int a" "of_int a < (2::rat) powi la"
    using la la1 by (simp_all add: power_int_def)
  have rb: "(2::rat) powi (lb - 1) \<le> of_int b" "of_int b < (2::rat) powi lb"
    using lb lb1 by (simp_all add: power_int_def)
  have bpos: "(0::rat) < of_int b" using b by simp
  have up: "q < 2 powi (la - lb + 1)"
  proof -
    have "q < 2 powi la / of_int b" unfolding q using ra(2) bpos by (simp add: divide_strict_right_mono)
    also have "\<dots> \<le> 2 powi la / 2 powi (lb - 1)"
      using rb(1) by (simp add: frac_le)
    also have "\<dots> = 2 powi (la - (lb - 1))" by (rule power_int_diff [symmetric]) simp
    also have "la - (lb - 1) = la - lb + 1" by simp
    finally show ?thesis .
  qed
  have lo: "2 powi (la - lb - 1) < q"
  proof -
    have "la - lb - 1 = (la - 1) - lb" by simp
    then have "(2::rat) powi (la - lb - 1) = 2 powi ((la - 1) - lb)" by (rule arg_cong)
    also have "\<dots> = 2 powi (la - 1) / 2 powi lb" by (rule power_int_diff) simp
    also have "\<dots> < 2 powi (la - 1) / of_int b"
      using rb(2) bpos by (simp add: frac_less2)
    also have "\<dots> \<le> q" unfolding q using ra(1) bpos by (simp add: divide_right_mono)
    finally show ?thesis .
  qed
  show ?thesis
    using up lo ab by (auto simp: ilog2_def Let_def la_def lb_def)
qed

lemma ilog2_unique:
  assumes "2 powi e \<le> q" "q < 2 powi (e + 1)"
  shows "ilog2 q = e"
proof -
  have q: "0 < q" using assms(1) by (meson less_le_trans zero_less_numeral zero_less_power_int)
  note b = ilog2_bounds[OF q]
  have "(2::rat) powi e < 2 powi (ilog2 q + 1)" using assms(1) b by simp
  then have "e < ilog2 q + 1"
    by (metis linorder_not_le one_le_numeral power_int_increasing not_less)
  moreover have "(2::rat) powi (ilog2 q) < 2 powi (e + 1)" using assms(2) b by simp
  then have "ilog2 q < e + 1"
    by (metis linorder_not_le one_le_numeral power_int_increasing not_less)
  ultimately show ?thesis by simp
qed

lemma round_half_even_bounds: "\<lfloor>q\<rfloor> \<le> round_half_even q \<and> round_half_even q \<le> \<lfloor>q\<rfloor> + 1"
  by (simp add: round_half_even_def Let_def)

lemma round_half_even_of_int [simp]: "round_half_even (of_int n) = n"
  by (simp add: round_half_even_def Let_def)

lemma round_half_even_mono:
  assumes "a \<le> b"
  shows "round_half_even a \<le> round_half_even b"
proof (cases "\<lfloor>a\<rfloor> = \<lfloor>b\<rfloor>")
  case True
  then show ?thesis using assms by (auto simp: round_half_even_def Let_def)
next
  case False
  then have "\<lfloor>a\<rfloor> < \<lfloor>b\<rfloor>" using assms floor_mono[OF assms] by linarith
  then show ?thesis
    using round_half_even_bounds[of a] round_half_even_bounds[of b] by linarith
qed

lemma round_half_even_ge: "of_int n \<le> q \<Longrightarrow> n \<le> round_half_even q"
  using round_half_even_mono[of "of_int n" q] by simp

lemma round_half_even_le: "q \<le> of_int n \<Longrightarrow> round_half_even q \<le> n"
  using round_half_even_mono[of q "of_int n"] by simp

lemma pow2_add: "(2::rat) powi (a + b) = 2 powi a * 2 powi b"
  by (rule power_int_add) simp

lemma pow2_23: "(2::rat) powi e = 2 powi (e - 23) * 2 ^ 23"
proof -
  have "e = (e - 23) + 23" by simp
  then have "(2::rat) powi e = 2 powi ((e - 23) + 23)" by (rule arg_cong)
  then show ?thesis by (simp only: pow2_add) simp
qed

lemma pow2_24: "(2::rat) powi (e + 1) = 2 powi (e - 23) * 2 ^ 24"
proof -
  have "e + 1 = (e - 23) + 24" by simp
  then have "(2::rat) powi (e + 1) = 2 powi ((e - 23) + 24)" by (rule arg_cong)
  then show ?thesis by (simp only: pow2_add) simp
qed

lemma significand_bounds:
  assumes "0 < q"
  shows "2 ^ 23 \<le> q / 2 powi (ilog2 q - 23) \<and> q / 2 powi (ilog2 q - 23) < 2 ^ 24"
proof -
  have u: "(0::rat) < 2 powi (ilog2 q - 23)" by simp
  have "2 powi (ilog2 q - 23) * 2 ^ 23 \<le> q" "q < 2 powi (ilog2 q - 23) * 2 ^ 24"
    using ilog2_bounds[OF assms] pow2_23[of "ilog2 q"] pow2_24[of "ilog2 q"] by simp_all
  then show ?thesis
    using u by (simp add: pos_le_divide_eq pos_divide_less_eq mult.commute)
qed

lemma round32_bounds:
  assumes "0 < q"
  shows "2 powi (ilog2 q) \<le> round32 q \<and> round32 q \<le> 2 powi (ilog2 q + 1)"
proof -
  let ?u = "(2::rat) powi (ilog2 q - 23)"
  let ?m = "round_half_even (q / ?u)"
  have u: "0 < ?u" by simp
  have m: "2 ^ 23 \<le> ?m" "?m \<le> 2 ^ 24"
    using significand_bounds[OF assms]
      round_half_even_ge[of "2 ^ 23" "q / ?u"] round_half_even_le[of "q / ?u" "2 ^ 24"] by simp_all
  have e1: "(2::rat) powi (ilog2 q) = 2 ^ 23 * ?u"
    using pow2_23[of "ilog2 q"] by (simp only: mult.commute)
  have e2: "(2::rat) powi (ilog2 q + 1) = 2 ^ 24 * ?u"
    using pow2_24[of "ilog2 q"] by (simp only: mult.commute)
  have r: "round32 q = of_int ?m * ?u" using assms by (simp add: round32_def Let_def)
  have "(2::rat) ^ 23 \<le> of_int ?m" using m(1) by (metis of_int_le_iff of_int_numeral of_int_power)
  moreover have "of_int ?m \<le> (2::rat) ^ 24" using m(2) by (metis of_int_le_iff of_int_numeral of_int_power)
  ultimately show ?thesis unfolding r e1 e2 using u by (simp add: mult_right_mono)
qed

lemma round32_pos: "0 < q \<Longrightarrow> 0 < round32 q"
  using round32_bounds[of q] zero_less_power_int[of "2::rat" "ilog2 q"] by linarith

lemma round32_0 [simp]: "round32 0 = 0"
  by (simp add: round32_def)

lemma round32_nonneg: "0 \<le> q \<Longrightarrow> 0 \<le> round32 q"
  using round32_pos[of q] by (cases "q = 0") simp_all

lemma ilog2_mono:
  assumes "0 < a" "a \<le> b"
  shows "ilog2 a \<le> ilog2 b"
proof (rule ccontr)
  assume "\<not> ilog2 a \<le> ilog2 b"
  then have "ilog2 b + 1 \<le> ilog2 a" by simp
  then have "(2::rat) powi (ilog2 b + 1) \<le> 2 powi (ilog2 a)" by (simp add: power_int_increasing)
  moreover have "0 < b" using assms by simp
  ultimately show False using ilog2_bounds[OF assms(1)] ilog2_bounds[OF \<open>0 < b\<close>] assms(2) by linarith
qed

lemma round32_mono:
  assumes "0 \<le> a" "a \<le> b"
  shows "round32 a \<le> round32 b"
proof (cases "a = 0")
  case True
  then show ?thesis using assms round32_nonneg[of b] by (simp add: round32_def)
next
  case False
  then have a: "0 < a" and b: "0 < b" using assms by simp_all
  show ?thesis
  proof (cases "ilog2 a = ilog2 b")
    case True
    have "a / 2 powi (ilog2 b - 23) \<le> b / 2 powi (ilog2 b - 23)"
      using assms(2) by (simp add: divide_right_mono)
    then have "round_half_even (a / 2 powi (ilog2 b - 23)) \<le> round_half_even (b / 2 powi (ilog2 b - 23))"
      by (rule round_half_even_mono)
    then have "(of_int (round_half_even (a / 2 powi (ilog2 b - 23))) :: rat) \<le> of_int (round_half_even (b / 2 powi (ilog2 b - 23)))"
      by simp
    then show ?thesis using a b True by (simp add: round32_def Let_def mult_right_mono)
  next
    case False
    then have "ilog2 a + 1 \<le> ilog2 b" using ilog2_mono[OF a assms(2)] by simp
    then have "(2::rat) powi (ilog2 a + 1) \<le> 2 powi (ilog2 b)" by (simp add: power_int_increasing)
    then show ?thesis using round32_bounds[OF a] round32_bounds[OF b] by linarith
  qed
qed

lemma round32_exact:
  assumes "2 ^ 23 \<le> m" "m < 2 ^ 24"
  shows "round32 (of_int m * 2 powi k) = of_int m * 2 powi k"
proof -
  let ?q = "of_int m * (2::rat) powi k"
  have m1: "(2::rat) ^ 23 \<le> of_int m" using assms(1) by (metis of_int_le_iff of_int_numeral of_int_power)
  have m2: "of_int m < (2::rat) ^ 24" using assms(2) by (metis of_int_less_iff of_int_numeral of_int_power)
  have "(2::rat) powi (k + 23) = 2 ^ 23 * 2 powi k" using pow2_23[of "k + 23"] by (simp add: mult.commute)
  moreover have "(2::rat) powi (k + 23 + 1) = 2 ^ 24 * 2 powi k" using pow2_24[of "k + 23"] by (simp add: mult.commute)
  ultimately have "ilog2 ?q = k + 23"
    using m1 m2 by (intro ilog2_unique) (simp_all add: mult_right_mono mult_strict_right_mono)
  moreover have "?q \<noteq> 0" using m1 by auto
  ultimately show ?thesis by (simp add: round32_def Let_def)
qed

lemma round32_scale:
  "round32 (q * 2 powi k) = round32 q * 2 powi k" if "0 \<le> q"
proof (cases "q = 0")
  case True
  then show ?thesis by (simp add: round32_def)
next
  case False
  then have q: "0 < q" using that by simp
  have "ilog2 (q * 2 powi k) = ilog2 q + k"
  proof (rule ilog2_unique)
    show "2 powi (ilog2 q + k) \<le> q * 2 powi k"
      using ilog2_bounds[OF q] by (simp add: pow2_add mult_right_mono)
    have "ilog2 q + k + 1 = (ilog2 q + 1) + k" by simp
    then have "(2::rat) powi (ilog2 q + k + 1) = 2 powi ((ilog2 q + 1) + k)" by (rule arg_cong)
    then show "q * 2 powi k < 2 powi (ilog2 q + k + 1)"
      using ilog2_bounds[OF q] by (simp only: pow2_add) (simp add: mult_strict_right_mono)
  qed
  moreover have "(2::rat) powi (ilog2 q + k - 23) = 2 powi (ilog2 q - 23) * 2 powi k"
  proof -
    have "ilog2 q + k - 23 = (ilog2 q - 23) + k" by simp
    then have "(2::rat) powi (ilog2 q + k - 23) = 2 powi ((ilog2 q - 23) + k)" by (rule arg_cong)
    then show ?thesis by (simp only: pow2_add)
  qed
  ultimately show ?thesis using q by (simp add: round32_def Let_def)
qed

lemma round32_idem:
  assumes "0 \<le> q"
  shows "round32 (round32 q) = round32 q"
proof (cases "q = 0")
  case True
  then show ?thesis by simp
next
  case False
  then have q: "0 < q" using assms by simp
  let ?u = "(2::rat) powi (ilog2 q - 23)"
  let ?m = "round_half_even (q / ?u)"
  have m: "2 ^ 23 \<le> ?m" "?m \<le> 2 ^ 24"
    using significand_bounds[OF q]
      round_half_even_ge[of "2 ^ 23" "q / ?u"] round_half_even_le[of "q / ?u" "2 ^ 24"] by simp_all
  have r: "round32 q = of_int ?m * ?u" using q by (simp add: round32_def Let_def)
  show ?thesis
  proof (cases "?m < 2 ^ 24")
    case True
    show ?thesis unfolding r using m(1) True by (rule round32_exact)
  next
    case False
    then have eq: "?m = 2 ^ 24" using m(2) by simp
    have "ilog2 q - 22 = (ilog2 q - 23) + 1" by simp
    then have "(2::rat) powi (ilog2 q - 22) = 2 powi ((ilog2 q - 23) + 1)" by (rule arg_cong)
    then have "(2::rat) powi (ilog2 q - 22) = ?u * 2" by (simp only: pow2_add) simp
    then have "of_int ?m * ?u = of_int (2 ^ 23) * (2::rat) powi (ilog2 q - 22)"
      by (simp add: eq)
    moreover have "round32 (of_int (2 ^ 23) * (2::rat) powi (ilog2 q - 22)) = of_int (2 ^ 23) * (2::rat) powi (ilog2 q - 22)"
      by (rule round32_exact) simp_all
    ultimately show ?thesis unfolding r by simp
  qed
qed

lemma round32_fixed:
  assumes "0 < q" "q / 2 powi (ilog2 q - 23) = of_int m"
  shows "round32 q = q"
proof -
  have "round32 q = of_int m * 2 powi (ilog2 q - 23)"
    using assms by (simp add: round32_def Let_def)
  also have "\<dots> = q" using assms(2) [symmetric] by simp
  finally show ?thesis .
qed

lemma round32_double: "0 \<le> q \<Longrightarrow> round32 (2 * q) = 2 * round32 q"
  using round32_scale[of q 1] by (simp add: mult.commute)

lemma round32_one [simp]: "round32 1 = 1"
  using round32_exact[of "2 ^ 23" "- 23"] by (simp add: power_int_minus)

lemma round32_half [simp]: "round32 (1 / 2) = 1 / 2"
  using round32_exact[of "2 ^ 23" "- 24"] by (simp add: power_int_minus)

lemma ilog2_of_nat_nonneg:
  assumes "0 < n"
  shows "0 \<le> ilog2 (of_nat n)"
proof -
  have "(2::rat) powi 0 \<le> of_nat n" using assms by simp
  moreover have "(1::rat) \<le> of_nat n" using assms by simp
  ultimately show ?thesis  using ilog2_mono[of 1 "of_nat n"] ilog2_unique[of 0 1] by simp
qed

lemma round32_of_nat_small:
  assumes "n < 2 ^ 24"
  shows "round32 (of_nat n) = of_nat n"
proof (cases "n = 0")
  case True
  then show ?thesis by simp
next
  case False
  then have q: "(0::rat) < of_nat n" by simp
  define e where "e = ilog2 (of_nat n)"
  have "(2::rat) powi e \<le> of_nat n" using ilog2_bounds[OF q] by (simp add: e_def)
  moreover have "(of_nat n :: rat) < 2 ^ 24" using assms by (metis of_nat_less_iff of_nat_numeral of_nat_power)
  ultimately have "(2::rat) powi e < 2 powi 24" by simp
  then have "e < 24" by (metis linorder_not_le one_le_numeral power_int_increasing not_less)
  then have k: "0 \<le> 23 - e" by simp
  have "(2::rat) powi (e - 23) = inverse (2 powi (23 - e))"
    using power_int_minus[of "2::rat" "23 - e"] by simp
  also have "\<dots> = inverse (2 ^ nat (23 - e))" using k by (simp add: power_int_def)
  finally have "of_nat n / (2::rat) powi (e - 23) = of_int (int n * 2 ^ nat (23 - e))"
    by (simp add: field_simps)
  then show ?thesis using q unfolding e_def by (rule round32_fixed[rotated])
qed

lemma round32_of_nat_integral: "\<exists>m::nat. round32 (of_nat n) = of_nat m"
proof (cases "n < 2 ^ 24")
  case True
  then show ?thesis using round32_of_nat_small by blast
next
  case False
  then have n: "2 ^ 24 \<le> n" by simp
  then have q: "(0::rat) < of_nat n" by simp
  define e where "e = ilog2 (of_nat n)"
  let ?m = "round_half_even (of_nat n / 2 powi (e - 23))"
  have "(2::rat) ^ 24 \<le> of_nat n" using n by (metis of_nat_le_iff of_nat_numeral of_nat_power)
  then have "(2::rat) powi 24 < 2 powi (e + 1)" using ilog2_bounds[OF q] by (simp add: e_def)
  then have "24 < e + 1" by (metis linorder_not_le one_le_numeral power_int_increasing not_less)
  then have k: "0 \<le> e - 23" by simp
  have m: "0 \<le> ?m"
    using significand_bounds[OF q] round_half_even_ge[of 0 "of_nat n / 2 powi (e - 23)"] by (simp add: e_def)
  have "round32 (of_nat n) = of_int ?m * 2 powi (e - 23)"
    using q by (simp add: round32_def Let_def e_def)
  also have "\<dots> = of_int ?m * 2 ^ nat (e - 23)" using k by (simp add: power_int_def)
  also have "\<dots> = of_nat (nat ?m * 2 ^ nat (e - 23))" using m by simp
  finally show ?thesis by blast
qed

lemma round32_of_nat_lower: "of_nat n \<le> 2 * round32 (of_nat n)"
proof (cases "n = 0")
  case True
  then show ?thesis by simp
next
  case False
  then have q: "(0::rat) < of_nat n" by simp
  have "(2::rat) powi (ilog2 (of_nat n) + 1) = 2 * 2 powi (ilog2 (of_nat n))"
    by (simp only: pow2_add) simp
  then show ?thesis using ilog2_bounds[OF q] round32_bounds[OF q] by linarith
qed

lemma MAX_LOAD_FACTOR_eq: "MAX_LOAD_FACTOR = Finite (13421773 / 16777216)"
  by code_simp

lemma MIN_LOAD_FACTOR_eq: "MIN_LOAD_FACTOR = Finite (1 / 2)"
  by (simp add: MIN_LOAD_FACTOR_def)

lemma f32_eq: "of_nat (f32 n) = round32 (of_nat n)"
proof -
  obtain m :: nat where m: "round32 (of_nat n) = of_nat m" using round32_of_nat_integral by blast
  then show ?thesis by (simp add: f32_def)
qed

lemma float_of_uint32_eq: "float_of_uint32 w = Finite (of_nat (f32 (unat w)))"
  by (simp add: float_of_uint32_def f32_eq)

lemma f32_mono: "a \<le> b \<Longrightarrow> f32 a \<le> f32 b"
proof -
  assume "a \<le> b"
  then have "round32 (of_nat a) \<le> round32 (of_nat b)" by (intro round32_mono) simp_all
  then have "(of_nat (f32 a) :: rat) \<le> of_nat (f32 b)" by (simp add: f32_eq)
  then show ?thesis by simp
qed

lemma f32_small: "n < 2 ^ 24 \<Longrightarrow> f32 n = n"
  by (simp add: f32_def round32_of_nat_small)

lemma f32_lower: "n \<le> 2 * f32 n"
proof -
  have "(of_nat n :: rat) \<le> of_nat (2 * f32 n)"
    using round32_of_nat_lower[of n] by (simp add: f32_eq)
  then show ?thesis by (simp only: of_nat_le_iff)
qed

lemma f32_pos: "0 < n \<Longrightarrow> 0 < f32 n"
  using f32_lower[of n] by simp

lemma f32_zero [simp]: "f32 0 = 0"
  by (simp add: f32_def)

lemma f32_double: "f32 (2 * f32 n) = 2 * f32 n"
proof -
  have "round32 (of_nat (2 * f32 n)) = round32 (2 * round32 (of_nat n))" by (simp add: f32_eq)
  also have "\<dots> = 2 * round32 (round32 (of_nat n))" by (intro round32_double round32_nonneg) simp
  also have "\<dots> = 2 * round32 (of_nat n)" by (simp add: round32_idem)
  also have "\<dots> = of_nat (2 * f32 n)" by (simp add: f32_eq)
  finally have "(of_nat (f32 (2 * f32 n)) :: rat) = of_nat (2 * f32 n)" by (simp add: f32_eq)
  then show ?thesis by (simp only: of_nat_eq_iff)
qed

lemma f32_max_projected: "f32 max_projected = max_projected"
proof -
  have "round32 (of_int (2 ^ 24 - 1) * 2 powi 6) = of_int (2 ^ 24 - 1) * 2 powi 6"
    by (rule round32_exact) simp_all
  then have "round32 (of_nat max_projected) = of_nat max_projected" by (simp add: max_projected_def)
  then have "(of_nat (f32 max_projected) :: rat) = of_nat max_projected" by (simp only: f32_eq)
  then show ?thesis by (simp only: of_nat_eq_iff)
qed

lemma new_capacity:
  "int_of_float (float_div (float_of_uint32 w) MIN_LOAD_FACTOR) =
     (if 2 * f32 (unat w) < 2 ^ 31 then Some (int (2 * f32 (unat w))) else None)"
proof -
  have "(of_nat (f32 (unat w)) :: rat) / (1 / 2) = of_nat (2 * f32 (unat w))" by simp
  then have "round32 (of_nat (f32 (unat w)) / (1 / 2)) = round32 (of_nat (2 * f32 (unat w)))"
    by (rule arg_cong)
  also have "\<dots> = of_nat (2 * f32 (unat w))" using f32_double[of "unat w"] f32_eq[of "2 * f32 (unat w)"] by simp
  finally have r: "round32 (of_nat (f32 (unat w)) / (1 / 2)) = of_nat (2 * f32 (unat w))" .
  have r': "round32 (of_nat (f32 (unat w)) / (1 / 2)) = of_int (int (2 * f32 (unat w)))"
    using r by simp
  have "float_div (float_of_uint32 w) MIN_LOAD_FACTOR = Finite (of_int (int (2 * f32 (unat w))))"
    unfolding float_of_uint32_eq MIN_LOAD_FACTOR_eq using r' by simp
  then have "int_of_float (float_div (float_of_uint32 w) MIN_LOAD_FACTOR) =
      (if int (2 * f32 (unat w)) < 2 ^ 31 then Some (int (2 * f32 (unat w))) else None)"
    by (simp only: int_of_float.simps floor_of_int)
  moreover have "(int (2 * f32 (unat w)) < 2 ^ 31) = (2 * f32 (unat w) < 2 ^ 31)"
    by (metis of_nat_less_iff of_nat_numeral of_nat_power)
  ultimately show ?thesis by (simp only:)
qed

lemma threshold_below_one: "round32 (4 / 5) < 1"
  using MAX_LOAD_FACTOR_eq by (simp add: MAX_LOAD_FACTOR_def)

lemma threshold_above_half: "1 / 2 \<le> round32 (4 / 5)"
  using MAX_LOAD_FACTOR_eq by (simp add: MAX_LOAD_FACTOR_def)

lemma no_resize_room:
  assumes "\<not> float_gt (loadFactor xw cw) MAX_LOAD_FACTOR" "xw \<noteq> 0"
  shows "unat xw < unat cw"
proof (rule ccontr)
  assume "\<not> unat xw < unat cw"
  then have le: "unat cw \<le> unat xw" by simp
  have xp: "0 < f32 (unat xw)" using assms(2) by (intro f32_pos) (simp add: unat_gt_0)
  show False
  proof (cases "f32 (unat cw) = 0")
    case True
    then show ?thesis using assms(1) xp
      by (simp add: loadFactor_def float_of_uint32_eq MAX_LOAD_FACTOR_def)
  next
    case False
    have "(1::rat) \<le> of_nat (f32 (unat xw)) / of_nat (f32 (unat cw))"
      using f32_mono[OF le] False by (simp add: le_divide_eq)
    then have "round32 1 \<le> round32 (of_nat (f32 (unat xw)) / of_nat (f32 (unat cw)))"
      by (intro round32_mono) simp_all
    then show ?thesis using assms(1) False threshold_below_one
      by (simp add: loadFactor_def float_of_uint32_eq MAX_LOAD_FACTOR_def)
  qed
qed

lemma load_ok_no_resize:
  assumes "\<not> float_gt (loadFactor xw cw) MAX_LOAD_FACTOR" "xw \<noteq> 0" "unat uw \<le> unat xw"
  shows "float_le (loadFactor uw cw) MAX_LOAD_FACTOR"
proof -
  have "unat xw < unat cw" using assms(1,2) by (rule no_resize_room)
  then have "0 < unat cw" by simp
  then have cp: "0 < f32 (unat cw)" by (rule f32_pos)
  have "(of_nat (f32 (unat uw)) :: rat) / of_nat (f32 (unat cw)) \<le> of_nat (f32 (unat xw)) / of_nat (f32 (unat cw))"
    using f32_mono[OF assms(3)] cp by (simp add: divide_right_mono)
  then have "round32 (of_nat (f32 (unat uw)) / of_nat (f32 (unat cw))) \<le> round32 (of_nat (f32 (unat xw)) / of_nat (f32 (unat cw)))"
    by (intro round32_mono) simp_all
  then show ?thesis using assms(1) cp
    by (simp add: loadFactor_def float_of_uint32_eq MAX_LOAD_FACTOR_def)
qed

lemma load_ok_resize:
  assumes "unat cw = 2 * f32 (unat xw)" "xw \<noteq> 0" "unat uw \<le> unat xw"
  shows "float_le (loadFactor uw cw) MAX_LOAD_FACTOR"
proof -
  have xp: "0 < f32 (unat xw)" using assms(2) by (intro f32_pos) (simp add: unat_gt_0)
  have c: "f32 (unat cw) = 2 * f32 (unat xw)" using assms(1) f32_double by simp
  have "(of_nat (f32 (unat uw)) :: rat) \<le> of_nat (f32 (unat xw))" using f32_mono[OF assms(3)] by simp
  then have "(of_nat (f32 (unat uw)) :: rat) / of_nat (f32 (unat cw)) \<le> 1 / 2"
    using xp c by (simp add: divide_le_eq)
  then have "round32 (of_nat (f32 (unat uw)) / of_nat (f32 (unat cw))) \<le> round32 (1 / 2)"
    by (intro round32_mono) simp_all
  then show ?thesis using xp c threshold_above_half
    by (simp add: loadFactor_def float_of_uint32_eq MAX_LOAD_FACTOR_def)
qed

lemma scan_Some_iff:
  "scan P n h f = Some i \<longleftrightarrow>
     (\<exists>j<f. i = (h + j) mod n \<and> P i \<and> (\<forall>j'<j. \<not> P ((h + j') mod n)))" if "h < n"
  using that
proof (induction f arbitrary: h)
  case 0
  then show ?case by simp
next
  case (Suc f)
  have n: "0 < n" using Suc.prems by simp
  then have h': "Suc h mod n < n" by simp
  have sh: "\<And>j. (Suc h mod n + j) mod n = (h + Suc j) mod n"
    by (metis add_Suc_right add_Suc mod_add_left_eq)
  show ?case
  proof (cases "P h")
    case True
    have "(\<exists>j<Suc f. i = (h + j) mod n \<and> P i \<and> (\<forall>j'<j. \<not> P ((h + j') mod n))) \<longleftrightarrow> i = h"
    proof
      assume "\<exists>j<Suc f. i = (h + j) mod n \<and> P i \<and> (\<forall>j'<j. \<not> P ((h + j') mod n))"
      then obtain j where j: "i = (h + j) mod n" "\<forall>j'<j. \<not> P ((h + j') mod n)" by blast
      have "j = 0"
      proof (rule ccontr)
        assume "j \<noteq> 0"
        then have "\<not> P ((h + 0) mod n)" using j(2) by blast
        then show False using True Suc.prems by simp
      qed
      then show "i = h" using j(1) Suc.prems by simp
    next
      assume "i = h"
      then show "\<exists>j<Suc f. i = (h + j) mod n \<and> P i \<and> (\<forall>j'<j. \<not> P ((h + j') mod n))"
        using True Suc.prems by (intro exI[of _ 0]) simp
    qed
    then show ?thesis using True by auto
  next
    case False
    have "scan P n h (Suc f) = Some i \<longleftrightarrow> scan P n (Suc h mod n) f = Some i"
      using False by simp
    also have "\<dots> \<longleftrightarrow> (\<exists>j<f. i = (h + Suc j) mod n \<and> P i \<and> (\<forall>j'<j. \<not> P ((h + Suc j') mod n)))"
      using Suc.IH[OF h'] by (simp add: sh)
    also have "\<dots> \<longleftrightarrow> (\<exists>j<Suc f. i = (h + j) mod n \<and> P i \<and> (\<forall>j'<j. \<not> P ((h + j') mod n)))"
      (is "?L \<longleftrightarrow> ?R")
    proof
      assume ?L
      then obtain j where j: "j < f" "i = (h + Suc j) mod n" "P i" "\<forall>j'<j. \<not> P ((h + Suc j') mod n)"
        by blast
      have "\<forall>j'<Suc j. \<not> P ((h + j') mod n)"
      proof (intro allI impI)
        fix j' assume "j' < Suc j"
        then show "\<not> P ((h + j') mod n)"
          using j(4) False Suc.prems by (cases j') auto
      qed
      then show ?R using j by (intro exI[of _ "Suc j"]) simp
    next
      assume ?R
      then obtain j where j: "j < Suc f" "i = (h + j) mod n" "P i" "\<forall>j'<j. \<not> P ((h + j') mod n)"
        by blast
      have "j \<noteq> 0" using j(2,3) False Suc.prems by (intro notI) simp
      then obtain j0 where j0: "j = Suc j0" by (cases j) auto
      have "\<forall>j'<j0. \<not> P ((h + Suc j') mod n)" using j(4) j0 by auto
      then show ?L using j j0 by (intro exI[of _ j0]) simp
    qed
    finally show ?thesis .
  qed
qed

lemma scan_None_iff:
  "scan P n h f = None \<longleftrightarrow> (\<forall>j<f. \<not> P ((h + j) mod n))" if "h < n"
  using that
proof (induction f arbitrary: h)
  case 0
  then show ?case by simp
next
  case (Suc f)
  have n: "0 < n" using Suc.prems by simp
  then have h': "Suc h mod n < n" by simp
  have sh: "\<And>j. (Suc h mod n + j) mod n = (h + Suc j) mod n"
    by (metis add_Suc_right add_Suc mod_add_left_eq)
  have "(\<forall>j<Suc f. \<not> P ((h + j) mod n)) \<longleftrightarrow> \<not> P h \<and> (\<forall>j<f. \<not> P ((h + Suc j) mod n))"
    using Suc.prems by (auto simp: less_Suc_eq_0_disj)
  then show ?case using Suc.IH[OF h'] by (simp add: sh)
qed

lemma dist_offset: "h < n \<Longrightarrow> j < n \<Longrightarrow> dist n h ((h + j) mod n) = j"
proof -
  assume a: "h < n" "j < n"
  have "((h + j) mod n + n - h) mod n = ((h + j) mod n + (n - h)) mod n" using a by simp
  also have "\<dots> = (h + j + (n - h)) mod n" by (simp add: mod_add_left_eq)
  also have "\<dots> = (j + n) mod n" using a by (simp add: algebra_simps)
  also have "\<dots> = j" using a by simp
  finally show ?thesis by (simp add: dist_def)
qed

lemma offset_dist: "h < n \<Longrightarrow> i < n \<Longrightarrow> (h + dist n h i) mod n = i"
proof -
  assume a: "h < n" "i < n"
  have "(h + (i + n - h) mod n) mod n = (h + (i + n - h)) mod n" by (simp add: mod_add_right_eq)
  also have "\<dots> = (i + n) mod n" using a by simp
  also have "\<dots> = i" using a by simp
  finally show ?thesis by (simp add: dist_def)
qed

lemma dist_less: "0 < n \<Longrightarrow> dist n h i < n"
  by (simp add: dist_def)

lemma scan_full_Some:
  assumes "h < n"
  shows "scan P n h n = Some i \<longleftrightarrow> is_first P n h i"
proof
  assume "scan P n h n = Some i"
  then obtain j where j: "j < n" "i = (h + j) mod n" "P i" "\<forall>j'<j. \<not> P ((h + j') mod n)"
    using scan_Some_iff[OF assms] by blast
  have d: "dist n h i = j" using j(1,2) assms by (simp add: dist_offset)
  have "\<forall>i'<n. dist n h i' < dist n h i \<longrightarrow> \<not> P i'"
  proof (intro allI impI)
    fix i' assume i': "i' < n" "dist n h i' < dist n h i"
    then have "\<not> P ((h + dist n h i') mod n)" using j(4) d by simp
    then show "\<not> P i'" using offset_dist[OF assms i'(1)] by simp
  qed
  then show "is_first P n h i" using j assms by (simp add: is_first_def)
next
  assume f: "is_first P n h i"
  then have i: "i < n" "P i" and b: "\<forall>i'<n. dist n h i' < dist n h i \<longrightarrow> \<not> P i'"
    by (simp_all add: is_first_def)
  have "\<forall>j'<dist n h i. \<not> P ((h + j') mod n)"
  proof (intro allI impI)
    fix j' assume j': "j' < dist n h i"
    then have jn: "j' < n" using dist_less[of n h i] assms by simp
    have "dist n h ((h + j') mod n) = j'" using assms jn by (rule dist_offset)
    then show "\<not> P ((h + j') mod n)" using b j' assms by simp
  qed
  then show "scan P n h n = Some i"
    using scan_Some_iff[OF assms, of P n i] i offset_dist[OF assms i(1)] dist_less[of n h i] assms
    by (intro iffD2[OF scan_Some_iff[OF assms]] exI[of _ "dist n h i"]) simp
qed

lemma scan_full_None:
  assumes "h < n"
  shows "scan P n h n = None \<longleftrightarrow> (\<forall>i<n. \<not> P i)"
proof
  assume s: "scan P n h n = None"
  show "\<forall>i<n. \<not> P i"
  proof (intro allI impI)
    fix i assume i: "i < n"
    have "\<not> P ((h + dist n h i) mod n)"
      using s scan_None_iff[OF assms, of P n] dist_less[of n h i] assms by simp
    then show "\<not> P i" using offset_dist[OF assms i] by simp
  qed
next
  assume "\<forall>i<n. \<not> P i"
  then show "scan P n h n = None" using scan_None_iff[OF assms, of P n] assms by simp
qed

lemma is_first_unique: "is_first P n h i \<Longrightarrow> is_first P n h i' \<Longrightarrow> h < n \<Longrightarrow> i = i'"
  by (metis option.inject scan_full_Some)

lemma unat_succ_mod': 
  fixes h cap :: uint32
  assumes "h < cap"
  shows "unat ((h + 1) mod cap) = Suc (unat h) mod unat cap"
proof -
  have "unat h < unat cap" using assms by (simp add: word_less_nat_alt)
  then show ?thesis using unat_succ_mod[OF assms] by (auto simp: mod_Suc)
qed

lemma home_less: "cap \<noteq> 0 \<Longrightarrow> hashFunc k mod cap < cap" for cap :: uint32
  by (simp add: word_mod_less_divisor word_neq_0_conv)

lemma succ_less: "cap \<noteq> 0 \<Longrightarrow> (h + 1) mod cap < cap" for cap :: uint32
  by (simp add: word_mod_less_divisor word_neq_0_conv)

lemma probe_left_home:
  "cap \<noteq> 0 \<Longrightarrow> probe_left cap k (hashFunc k mod cap) = unat cap"
  using home_less[of cap k] by (simp add: probe_left_def)

lemma probe_left_step:
  fixes h cap :: uint32
  assumes "cap \<noteq> 0" "h < cap"
  shows "probe_left cap k h =
           (if (h + 1) mod cap = hashFunc k mod cap then Suc 0
            else Suc (probe_left cap k ((h + 1) mod cap)))"
proof -
  have a: "unat h < unat cap" using assms(2) by (simp add: word_less_nat_alt)
  have b: "unat (hashFunc k mod cap) < unat cap"
    using home_less[OF assms(1), of k] by (simp add: word_less_nat_alt)
  have c: "unat ((h + 1) mod cap) < unat cap"
    using succ_less[OF assms(1), of h] by (simp add: word_less_nat_alt)
  have e: "(h + 1) mod cap = hashFunc k mod cap \<longleftrightarrow> unat ((h + 1) mod cap) = unat (hashFunc k mod cap)"
    by (simp add: word_unat_eq_iff)
  have "probe_left cap k h =
       (if unat h < unat (hashFunc k mod cap) then unat (hashFunc k mod cap) - unat h
        else unat (hashFunc k mod cap) + unat cap - unat h)"
    using assms by (simp add: probe_left_def word_less_nat_alt word_le_nat_alt)
  moreover have "probe_left cap k ((h + 1) mod cap) =
       (if unat ((h + 1) mod cap) < unat (hashFunc k mod cap)
        then unat (hashFunc k mod cap) - unat ((h + 1) mod cap)
        else unat (hashFunc k mod cap) + unat cap - unat ((h + 1) mod cap))"
    using assms(1) succ_less[OF assms(1), of h] by (simp add: probe_left_def word_less_nat_alt word_le_nat_alt)
  ultimately show ?thesis unfolding e using a b c unat_succ_mod[OF assms(2)]
    by (simp split: if_splits)
qed

lemma entry_update_both [simp]: "e\<lparr>key := k, value := v\<rparr> = \<lparr>key = k, value = v\<rparr>"
  by (cases e) simp

lemma entry_update_value: "e\<lparr>value := v\<rparr> = \<lparr>key = key e, value = v\<rparr>"
  by (cases e) simp

lemma kernelInsert_loop_scan:
  assumes "cap \<noteq> 0" "h < cap" "length tbl = unat cap"
  shows "kernelInsert_loop tbl cap k v h cnt =
     (case scan (empty_or tbl k) (unat cap) (unat h) (probe_left cap k h) of
        None \<Rightarrow> (tbl, cnt)
      | Some i \<Rightarrow> (tbl[i := \<lparr>key = k, value = v\<rparr>], if key (tbl ! i) = k then cnt + 1 else cnt))"
  using assms
proof (induction tbl cap k v h cnt rule: kernelInsert_loop.induct)
  case (1 tbl cap k v h cnt)
  have hl: "unat h < length tbl" using "1.prems" by (simp add: word_less_nat_alt)
  note pl = probe_left_step[OF "1.prems"(1,2), of k]
  show ?case
  proof (cases "empty_or tbl k (unat h)")
    case True
    then show ?thesis using hl pl
      by (subst kernelInsert_loop.simps)
         (auto simp: atomicCAS_key_def Let_def empty_or_def entry_update_value)
  next
    case False
    show ?thesis
    proof (cases "(h + 1) mod cap = hashFunc k mod cap")
      case True
      then show ?thesis using False hl pl
        by (subst kernelInsert_loop.simps) (auto simp: atomicCAS_key_def Let_def empty_or_def)
    next
      case ne: False
      have "kernelInsert_loop tbl cap k v h cnt = kernelInsert_loop tbl cap k v ((h + 1) mod cap) cnt"
        using False ne by (subst kernelInsert_loop.simps) (auto simp: atomicCAS_key_def Let_def empty_or_def)
      also have "\<dots> = (case scan (empty_or tbl k) (unat cap) (unat ((h + 1) mod cap)) (probe_left cap k ((h + 1) mod cap)) of
        None \<Rightarrow> (tbl, cnt)
      | Some i \<Rightarrow> (tbl[i := \<lparr>key = k, value = v\<rparr>], if key (tbl ! i) = k then cnt + 1 else cnt))"
        using False ne "1.prems" succ_less[OF "1.prems"(1), of h]
        by (intro "1.IH"[where x = "atomicCAS_key tbl (unat h) KEY_INVALID k"])
           (auto simp: atomicCAS_key_def Let_def empty_or_def)
      finally show ?thesis using False ne pl unat_succ_mod'[OF "1.prems"(2)] by simp
    qed
  qed
qed

lemma kernelReshape_loop_scan:
  assumes "cap \<noteq> 0" "h < cap" "length tbl = unat cap"
  shows "kernelReshape_loop e tbl cap h =
     (case scan (is_empty tbl) (unat cap) (unat h) (probe_left cap (key e) h) of
        None \<Rightarrow> tbl
      | Some i \<Rightarrow> tbl[i := \<lparr>key = key e, value = value e\<rparr>])"
  using assms
proof (induction e tbl cap h rule: kernelReshape_loop.induct)
  case (1 e tbl cap h)
  have hl: "unat h < length tbl" using "1.prems" by (simp add: word_less_nat_alt)
  note pl = probe_left_step[OF "1.prems"(1,2), of "key e"]
  show ?case
  proof (cases "is_empty tbl (unat h)")
    case True
    then show ?thesis using hl pl
      by (subst kernelReshape_loop.simps)
         (auto simp: atomicCAS_key_def Let_def is_empty_def)
  next
    case False
    show ?thesis
    proof (cases "(h + 1) mod cap = hashFunc (key e) mod cap")
      case True
      then show ?thesis using False hl pl
        by (subst kernelReshape_loop.simps) (auto simp: atomicCAS_key_def Let_def is_empty_def)
    next
      case ne: False
      have "kernelReshape_loop e tbl cap h = kernelReshape_loop e tbl cap ((h + 1) mod cap)"
        using False ne by (subst kernelReshape_loop.simps) (auto simp: atomicCAS_key_def Let_def is_empty_def)
      also have "\<dots> = (case scan (is_empty tbl) (unat cap) (unat ((h + 1) mod cap)) (probe_left cap (key e) ((h + 1) mod cap)) of
        None \<Rightarrow> tbl
      | Some i \<Rightarrow> tbl[i := \<lparr>key = key e, value = value e\<rparr>])"
        using False ne "1.prems" succ_less[OF "1.prems"(1), of h]
        by (intro "1.IH"[where x = "atomicCAS_key tbl (unat h) KEY_INVALID (key e)"])
           (auto simp: atomicCAS_key_def Let_def is_empty_def)
      finally show ?thesis using False ne pl unat_succ_mod'[OF "1.prems"(2)] by simp
    qed
  qed
qed

lemma kernelGet_loop_scan:
  assumes "cap \<noteq> 0" "h < cap" "scan (has_key tbl k) (unat cap) (unat h) f = Some i"
  shows "kernelGet_loop tbl cap k h = Some (value (tbl ! i))"
  using assms(2,3)
proof (induction f arbitrary: h)
  case 0
  then show ?case by simp
next
  case (Suc f)
  show ?case
  proof (cases "has_key tbl k (unat h)")
    case True
    then show ?thesis using Suc.prems
      by (subst kernelGet_loop.simps) (auto simp: has_key_def)
  next
    case False
    then have "scan (has_key tbl k) (unat cap) (unat ((h + 1) mod cap)) f = Some i"
      using Suc.prems unat_succ_mod'[OF Suc.prems(1)] by simp
    then have "kernelGet_loop tbl cap k ((h + 1) mod cap) = Some (value (tbl ! i))"
      using succ_less[OF assms(1), of h] by (intro Suc.IH)
    then show ?thesis using False
      by (subst kernelGet_loop.simps) (auto simp: has_key_def)
  qed
qed

lemma kernelGet_loop_Some:
  assumes "kernelGet_loop tbl cap k h = Some v"
  shows "cap \<noteq> 0 \<longrightarrow> h < cap \<longrightarrow> (\<exists>i<unat cap. key (tbl ! i) = k \<and> value (tbl ! i) = v)"
  using assms
proof (induction rule: kernelGet_loop.raw_induct[rotated 1, consumes 1, case_names step])
  case (step f tbl cap k h v)
  show ?case
  proof (intro impI)
    assume c: "cap \<noteq> 0" and h: "h < cap"
    show "\<exists>i<unat cap. key (tbl ! i) = k \<and> value (tbl ! i) = v"
    proof (cases "k = key (tbl ! unat h)")
      case True
      then show ?thesis using step(2) h by (auto simp: word_less_nat_alt)
    next
      case False
      then have "f tbl cap k ((h + 1) mod cap) = Some v" using step(2) by simp
      then show ?thesis using step(1) c succ_less[OF c, of h] by blast
    qed
  qed
qed

lemma home_lt: "cap \<noteq> 0 \<Longrightarrow> home cap k < unat cap"
  using home_less[of cap k] by (simp add: home_def word_less_nat_alt)

lemma first_slot_Some: "cap \<noteq> 0 \<Longrightarrow> first_slot P cap k = Some i \<longleftrightarrow> is_first P (unat cap) (home cap k) i"
  by (simp add: first_slot_def scan_full_Some home_lt)

lemma first_slot_None: "cap \<noteq> 0 \<Longrightarrow> first_slot P cap k = None \<longleftrightarrow> (\<forall>i<unat cap. \<not> P i)"
  by (simp add: first_slot_def scan_full_None home_lt)

lemma scan_cong:
  assumes "\<And>i. i < n \<Longrightarrow> P i = Q i" "h < n"
  shows "scan P n h f = scan Q n h f"
  using assms(2)
proof (induction f arbitrary: h)
  case 0
  then show ?case by simp
next
  case (Suc f)
  have "Suc h mod n < n" using Suc.prems by simp
  then show ?case using Suc.IH[of "Suc h mod n"] assms(1)[OF Suc.prems] by simp
qed

lemma first_slot_cong:
  assumes "\<And>i. i < unat cap \<Longrightarrow> P i = Q i" "cap \<noteq> 0"
  shows "first_slot P cap k = first_slot Q cap k"
  unfolding first_slot_def using assms(1) home_lt[OF assms(2)] by (rule scan_cong)

lemma key_in_set: "k \<in> key ` set tbl \<longleftrightarrow> (\<exists>i<length tbl. key (tbl ! i) = k)"
proof
  assume "k \<in> key ` set tbl"
  then obtain e where "e \<in> set tbl" "k = key e" by auto
  then show "\<exists>i<length tbl. key (tbl ! i) = k" by (auto simp: in_set_conv_nth)
next
  assume "\<exists>i<length tbl. key (tbl ! i) = k"
  then obtain i where "i < length tbl" "key (tbl ! i) = k" by auto
  then show "k \<in> key ` set tbl" using nth_mem[of i tbl] by (intro image_eqI[of _ _ "tbl ! i"]) simp_all
qed

lemma live_keys_nth:
  "live_keys tbl = {k. k \<noteq> KEY_INVALID \<and> (\<exists>i<length tbl. key (tbl ! i) = k)}"
  using key_in_set[of _ tbl] by (auto simp: live_keys_def)

lemma probe_inv_present:
  assumes "probe_inv tbl cap" "cap \<noteq> 0" "length tbl = unat cap"
    and "i < length tbl" "key (tbl ! i) = k" "k \<noteq> KEY_INVALID"
  shows "first_slot (empty_or tbl k) cap k = Some i" "first_slot (has_key tbl k) cap k = Some i"
proof -
  show f: "first_slot (empty_or tbl k) cap k = Some i"
    using assms by (auto simp: probe_inv_def)
  then have "is_first (empty_or tbl k) (unat cap) (home cap k) i"
    using assms(2) by (simp add: first_slot_Some)
  then have "is_first (has_key tbl k) (unat cap) (home cap k) i"
    using assms(5) by (auto simp: is_first_def empty_or_def has_key_def)
  then show "first_slot (has_key tbl k) cap k = Some i"
    using assms(2) by (simp add: first_slot_Some)
qed

lemma probe_inv_inj:
  assumes "probe_inv tbl cap" "cap \<noteq> 0" "length tbl = unat cap"
    and "i < length tbl" "j < length tbl" "key (tbl ! i) = key (tbl ! j)" "key (tbl ! i) \<noteq> KEY_INVALID"
  shows "i = j"
  using probe_inv_present(1)[OF assms(1,2,3,4) refl assms(7)]
        probe_inv_present(1)[OF assms(1,2,3,5) assms(6)[symmetric] assms(7)] by simp

lemma lookup_present:
  assumes "probe_inv tbl cap" "cap \<noteq> 0" "length tbl = unat cap"
    and "i < length tbl" "key (tbl ! i) = k" "k \<noteq> KEY_INVALID"
  shows "lookup tbl cap k = Some (value (tbl ! i))"
  using probe_inv_present(2)[OF assms] by (simp add: lookup_def)

lemma lookup_None_iff:
  assumes "cap \<noteq> 0" "length tbl = unat cap"
  shows "lookup tbl cap k = None \<longleftrightarrow> k \<notin> key ` set tbl"
proof -
  have "lookup tbl cap k = None \<longleftrightarrow> (\<forall>i<unat cap. key (tbl ! i) \<noteq> k)"
    using assms(1) by (simp add: lookup_def first_slot_None has_key_def)
  also have "\<dots> \<longleftrightarrow> k \<notin> key ` set tbl"
    using assms(2) key_in_set[of k tbl] by auto
  finally show ?thesis .
qed

lemma lookup_dom:
  assumes "cap \<noteq> 0" "length tbl = unat cap" "k \<noteq> KEY_INVALID"
  shows "lookup tbl cap k \<noteq> None \<longleftrightarrow> k \<in> live_keys tbl"
  using lookup_None_iff[OF assms(1,2), of k] assms(3) by (auto simp: live_keys_def)

lemma probe_inv_update:
  assumes inv: "probe_inv tbl cap" and c: "cap \<noteq> 0" and len: "length tbl = unat cap"
    and f: "first_slot (empty_or tbl k) cap k = Some i0"
  shows "probe_inv (tbl[i0 := \<lparr>key = k, value = v\<rparr>]) cap"
  unfolding probe_inv_def
proof (intro allI impI)
  let ?t = "tbl[i0 := \<lparr>key = k, value = v\<rparr>]"
  fix i assume i: "i < length ?t" and live: "key (?t ! i) \<noteq> KEY_INVALID"
  have f0: "is_first (empty_or tbl k) (unat cap) (home cap k) i0"
    using f c by (simp add: first_slot_Some)
  then have i0: "i0 < length tbl" and p0: "empty_or tbl k i0" using len by (simp_all add: is_first_def)
  have "is_first (empty_or ?t (key (?t ! i))) (unat cap) (home cap (key (?t ! i))) i"
  proof (cases "i = i0")
    case True
    then have ki: "key (?t ! i) = k" using i0 by simp
    have "\<forall>i'<unat cap. dist (unat cap) (home cap k) i' < dist (unat cap) (home cap k) i0 \<longrightarrow> \<not> empty_or ?t k i'"
    proof (intro allI impI)
      fix i' assume a: "i' < unat cap" "dist (unat cap) (home cap k) i' < dist (unat cap) (home cap k) i0"
      then have n: "\<not> empty_or tbl k i'" using f0 by (simp add: is_first_def)
      then have "i' \<noteq> i0" using p0 by auto
      then show "\<not> empty_or ?t k i'" using n by (simp add: empty_or_def)
    qed
    then show ?thesis using True ki i0 len by (simp add: is_first_def empty_or_def)
  next
    case False
    then have same: "?t ! i = tbl ! i" by simp
    let ?k' = "key (tbl ! i)"
    have il: "i < length tbl" using i by simp
    have live': "?k' \<noteq> KEY_INVALID" using live same by simp
    have "first_slot (empty_or tbl ?k') cap ?k' = Some i"
      using inv il live' by (simp add: probe_inv_def)
    then have f1: "is_first (empty_or tbl ?k') (unat cap) (home cap ?k') i"
      using c by (simp add: first_slot_Some)
    have "\<forall>i'<unat cap. dist (unat cap) (home cap ?k') i' < dist (unat cap) (home cap ?k') i \<longrightarrow> \<not> empty_or ?t ?k' i'"
    proof (intro allI impI)
      fix i' assume a: "i' < unat cap" "dist (unat cap) (home cap ?k') i' < dist (unat cap) (home cap ?k') i"
      then have n: "\<not> empty_or tbl ?k' i'" using f1 by (simp add: is_first_def)
      show "\<not> empty_or ?t ?k' i'"
      proof (cases "i' = i0")
        case True
        then have "key (tbl ! i0) = k" "k \<noteq> KEY_INVALID" "k \<noteq> ?k'"
          using n p0 by (auto simp: empty_or_def)
        then show ?thesis using True i0 by (simp add: empty_or_def)
      next
        case False
        then show ?thesis using n by (simp add: empty_or_def)
      qed
    qed
    moreover have "empty_or ?t ?k' i" using same by (simp add: empty_or_def)
    ultimately show ?thesis using same il len by (simp add: is_first_def)
  qed
  then show "first_slot (empty_or ?t (key (?t ! i))) cap (key (?t ! i)) = Some i"
    using c by (simp add: first_slot_Some)
qed

lemma live_keys_update:
  assumes "i0 < length tbl" "key (tbl ! i0) = KEY_INVALID \<or> key (tbl ! i0) = k"
  shows "live_keys (tbl[i0 := \<lparr>key = k, value = v\<rparr>]) = live_keys tbl \<union> ({k} - {KEY_INVALID})"
proof -
  let ?t = "tbl[i0 := \<lparr>key = k, value = v\<rparr>]"
  have "\<And>k'. k' \<noteq> KEY_INVALID \<Longrightarrow>
          (\<exists>i<length ?t. key (?t ! i) = k') \<longleftrightarrow> (\<exists>i<length tbl. key (tbl ! i) = k') \<or> k' = k"
  proof -
    fix k' assume k': "k' \<noteq> KEY_INVALID"
    show "(\<exists>i<length ?t. key (?t ! i) = k') \<longleftrightarrow> (\<exists>i<length tbl. key (tbl ! i) = k') \<or> k' = k"
    proof
      assume "\<exists>i<length ?t. key (?t ! i) = k'"
      then obtain i where "i < length tbl" "key (?t ! i) = k'" by auto
      then show "(\<exists>i<length tbl. key (tbl ! i) = k') \<or> k' = k"
        by (cases "i = i0") auto
    next
      assume a: "(\<exists>i<length tbl. key (tbl ! i) = k') \<or> k' = k"
      show "\<exists>i<length ?t. key (?t ! i) = k'"
      proof (cases "k' = k")
        case True
        then show ?thesis using assms(1) by (intro exI[of _ i0]) simp
      next
        case False
        then obtain i where i: "i < length tbl" "key (tbl ! i) = k'" using a by auto
        then have "i \<noteq> i0" using assms(2) False k' by auto
        then show ?thesis using i by (intro exI[of _ i]) simp
      qed
    qed
  qed
  then show ?thesis unfolding live_keys_nth by auto
qed

lemma lookup_update:
  assumes inv: "probe_inv tbl cap" and c: "cap \<noteq> 0" and len: "length tbl = unat cap"
    and f: "first_slot (empty_or tbl k) cap k = Some i0" and k: "k \<noteq> KEY_INVALID"
    and k': "k' \<noteq> KEY_INVALID"
  shows "lookup (tbl[i0 := \<lparr>key = k, value = v\<rparr>]) cap k' = (if k' = k then Some v else lookup tbl cap k')"
proof -
  let ?t = "tbl[i0 := \<lparr>key = k, value = v\<rparr>]"
  have f0: "is_first (empty_or tbl k) (unat cap) (home cap k) i0"
    using f c by (simp add: first_slot_Some)
  then have i0: "i0 < length tbl" and p0: "empty_or tbl k i0" using len by (simp_all add: is_first_def)
  have inv': "probe_inv ?t cap" using inv c len f by (rule probe_inv_update)
  show ?thesis
  proof (cases "k' = k")
    case True
    have "lookup ?t cap k = Some (value (?t ! i0))"
      using inv' c _ _ _ k by (rule lookup_present) (use i0 len in simp_all)
    then show ?thesis using True i0 by simp
  next
    case False
    have "\<And>i. i < unat cap \<Longrightarrow> has_key ?t k' i = has_key tbl k' i"
    proof -
      fix i assume "i < unat cap"
      show "has_key ?t k' i = has_key tbl k' i"
      proof (cases "i = i0")
        case True
        then show ?thesis using p0 i0 False k' by (auto simp: has_key_def empty_or_def)
      next
        case False
        then show ?thesis by (simp add: has_key_def)
      qed
    qed
    then have fs: "first_slot (has_key ?t k') cap k' = first_slot (has_key tbl k') cap k'"
      using c by (rule first_slot_cong)
    show ?thesis
    proof (cases "first_slot (has_key tbl k') cap k'")
      case None
      then show ?thesis using fs False by (simp add: lookup_def)
    next
      case (Some i)
      then have "is_first (has_key tbl k') (unat cap) (home cap k') i" using c by (simp add: first_slot_Some)
      then have "key (tbl ! i) = k'" by (simp add: is_first_def has_key_def)
      then have "i \<noteq> i0" using p0 False k' by (auto simp: empty_or_def)
      then show ?thesis using fs Some False by (simp add: lookup_def)
    qed
  qed
qed

lemma probe_inv_card:
  assumes "probe_inv tbl cap" "cap \<noteq> 0" "length tbl = unat cap"
  shows "card (live_keys tbl) = card {i. i < length tbl \<and> key (tbl ! i) \<noteq> KEY_INVALID}"
proof -
  let ?L = "{i. i < length tbl \<and> key (tbl ! i) \<noteq> KEY_INVALID}"
  have "inj_on (\<lambda>i. key (tbl ! i)) ?L"
    using probe_inv_inj[OF assms] by (auto simp: inj_on_def)
  moreover have "live_keys tbl = (\<lambda>i. key (tbl ! i)) ` ?L"
    unfolding live_keys_nth by auto
  ultimately show ?thesis by (simp add: card_image)
qed

lemma empty_slot_exists:
  assumes "probe_inv tbl cap" "cap \<noteq> 0" "length tbl = unat cap" "card (live_keys tbl) < length tbl"
  shows "\<exists>i<length tbl. key (tbl ! i) = KEY_INVALID"
proof (rule ccontr)
  assume "\<not> (\<exists>i<length tbl. key (tbl ! i) = KEY_INVALID)"
  then have "{i. i < length tbl \<and> key (tbl ! i) \<noteq> KEY_INVALID} = {..<length tbl}" by auto
  then show False using probe_inv_card[OF assms(1,2,3)] assms(4) by simp
qed

lemma live_keys_card_le:
  assumes "probe_inv tbl cap" "cap \<noteq> 0" "length tbl = unat cap"
  shows "card (live_keys tbl) \<le> length tbl"
proof -
  have "{i. i < length tbl \<and> key (tbl ! i) \<noteq> KEY_INVALID} \<subseteq> {..<length tbl}" by auto
  then have "card {i. i < length tbl \<and> key (tbl ! i) \<noteq> KEY_INVALID} \<le> card {..<length tbl}"
    by (intro card_mono) auto
  then show ?thesis using probe_inv_card[OF assms] by simp
qed

lemma kernelInsert_thread:
  assumes "cap \<noteq> 0" "length (fst st) = unat cap"
  shows "kernelInsert cap dk dv numKeys idx st =
           Return (if unat numKeys \<le> idx then st else insert_entry st cap (dk ! idx) (dv ! idx))"
proof (cases st)
  case (Pair tbl cnt)
  have "kernelInsert_loop tbl cap (dk ! idx) (dv ! idx) (hashFunc (dk ! idx) mod cap) cnt =
          insert_entry (tbl, cnt) cap (dk ! idx) (dv ! idx)"
    using kernelInsert_loop_scan[where h = "hashFunc (dk ! idx) mod cap" and k = "dk ! idx"
            and cap = cap and tbl = tbl and v = "dv ! idx" and cnt = cnt]
      assms home_less[OF assms(1), of "dk ! idx"] Pair
    by (simp add: insert_entry_def first_slot_def home_def probe_left_home
             del: kernelInsert_loop.simps split: option.splits)
  then show ?thesis using assms(1) Pair
    by (simp add: kernelInsert_def del: kernelInsert_loop.simps)
qed

lemma insert_entry_length [simp]: "length (fst (insert_entry st cap k v)) = length (fst st)"
  by (simp add: insert_entry_def split: option.splits)

lemma insert_entry_frame:
  assumes "cap \<noteq> 0" "length (fst st) = unat cap" "i < length (fst st)"
    "key (fst st ! i) \<noteq> KEY_INVALID" "key (fst st ! i) \<noteq> k"
  shows "fst (insert_entry st cap k v) ! i = fst st ! i"
proof (cases "first_slot (empty_or (fst st) k) cap k")
  case None
  then show ?thesis by (simp add: insert_entry_def)
next
  case (Some i0)
  then have "empty_or (fst st) k i0" using assms(1) by (simp add: first_slot_Some is_first_def)
  then have "i0 \<noteq> i" using assms(4,5) by (auto simp: empty_or_def)
  then show ?thesis using Some by (simp add: insert_entry_def)
qed

lemma insert_entry_keys:
  assumes "cap \<noteq> 0" "length (fst st) = unat cap" "i < length (fst st)"
  shows "key (fst (insert_entry st cap k v) ! i) = key (fst st ! i) \<or>
         (key (fst st ! i) = KEY_INVALID \<and> key (fst (insert_entry st cap k v) ! i) = k)"
proof (cases "first_slot (empty_or (fst st) k) cap k")
  case None
  then show ?thesis by (simp add: insert_entry_def)
next
  case (Some i0)
  then have "empty_or (fst st) k i0" using assms(1) by (simp add: first_slot_Some is_first_def)
  then show ?thesis using Some assms(3) by (cases "i = i0") (auto simp: insert_entry_def empty_or_def)
qed

lemma insert_entry_count:
  "snd (insert_entry st cap k v) = snd st \<or> snd (insert_entry st cap k v) = snd st + 1"
  by (simp add: insert_entry_def split: option.splits)

lemma insert_entry_valid:
  assumes inv: "probe_inv tbl cap" and c: "cap \<noteq> 0" and len: "length tbl = unat cap"
    and room: "card (live_keys tbl) < unat cap"
  shows "\<exists>i0. first_slot (empty_or tbl k) cap k = Some i0 \<and> i0 < length tbl
            \<and> (key (tbl ! i0) = k \<longleftrightarrow> k \<in> live_keys tbl \<or> k = KEY_INVALID)"
proof -
  obtain j where j: "j < length tbl" "key (tbl ! j) = KEY_INVALID"
    using empty_slot_exists[OF inv c len] room len by auto
  then have "\<not> (\<forall>i<unat cap. \<not> empty_or tbl k i)" using len by (auto simp: empty_or_def)
  then obtain i0 where f: "first_slot (empty_or tbl k) cap k = Some i0"
    using first_slot_None[OF c, of "empty_or tbl k" k] by (cases "first_slot (empty_or tbl k) cap k") auto
  then have p: "i0 < length tbl" "empty_or tbl k i0"
    using c len by (simp_all add: first_slot_Some is_first_def)
  have "key (tbl ! i0) = k \<longleftrightarrow> k \<in> live_keys tbl \<or> k = KEY_INVALID"
  proof
    assume "key (tbl ! i0) = k"
    then show "k \<in> live_keys tbl \<or> k = KEY_INVALID" using p(1) by (auto simp: live_keys_nth)
  next
    assume a: "k \<in> live_keys tbl \<or> k = KEY_INVALID"
    show "key (tbl ! i0) = k"
    proof (cases "k = KEY_INVALID")
      case True
      then show ?thesis using p(2) by (simp add: empty_or_def)
    next
      case False
      then obtain i where i: "i < length tbl" "key (tbl ! i) = k" using a by (auto simp: live_keys_nth)
      have "first_slot (empty_or tbl k) cap k = Some i"
        using inv c len i False by (rule probe_inv_present(1))
      then show ?thesis using f i by simp
    qed
  qed
  then show ?thesis using f p by blast
qed

lemma lookup_update_sentinel:
  assumes c: "cap \<noteq> 0" and len: "length tbl = unat cap"
    and i0: "i0 < length tbl" "key (tbl ! i0) = KEY_INVALID" and k': "k' \<noteq> KEY_INVALID"
  shows "lookup (tbl[i0 := \<lparr>key = KEY_INVALID, value = v\<rparr>]) cap k' = lookup tbl cap k'"
proof -
  let ?t = "tbl[i0 := \<lparr>key = KEY_INVALID, value = v\<rparr>]"
  have "\<And>i. i < unat cap \<Longrightarrow> has_key ?t k' i = has_key tbl k' i"
  proof -
    fix i assume "i < unat cap"
    show "has_key ?t k' i = has_key tbl k' i"
      using i0 k' by (cases "i = i0") (auto simp: has_key_def)
  qed
  then have fs: "first_slot (has_key ?t k') cap k' = first_slot (has_key tbl k') cap k'"
    using c by (rule first_slot_cong)
  show ?thesis
  proof (cases "first_slot (has_key tbl k') cap k'")
    case None
    then show ?thesis using fs by (simp add: lookup_def)
  next
    case (Some i)
    then have "is_first (has_key tbl k') (unat cap) (home cap k') i" using c by (simp add: first_slot_Some)
    then have "key (tbl ! i) = k'" by (simp add: is_first_def has_key_def)
    then have "i \<noteq> i0" using i0 k' by auto
    then show ?thesis using fs Some by (simp add: lookup_def)
  qed
qed

lemma insert_entry_effect:
  assumes inv: "probe_inv tbl cap" and c: "cap \<noteq> 0" and len: "length tbl = unat cap"
    and room: "card (live_keys tbl) < unat cap"
  shows "probe_inv (fst (insert_entry (tbl, cnt) cap k v)) cap
       \<and> live_keys (fst (insert_entry (tbl, cnt) cap k v)) = live_keys tbl \<union> ({k} - {KEY_INVALID})
       \<and> snd (insert_entry (tbl, cnt) cap k v) = (if k \<in> live_keys tbl \<or> k = KEY_INVALID then cnt + 1 else cnt)
       \<and> (\<forall>k'. k' \<noteq> KEY_INVALID \<longrightarrow>
             lookup (fst (insert_entry (tbl, cnt) cap k v)) cap k' = upd k v (lookup tbl cap) k')"
proof -
  obtain i0 where f: "first_slot (empty_or tbl k) cap k = Some i0" and i0: "i0 < length tbl"
    and ky: "key (tbl ! i0) = k \<longleftrightarrow> k \<in> live_keys tbl \<or> k = KEY_INVALID"
    using insert_entry_valid[OF assms] by blast
  have p: "empty_or tbl k i0" using f c by (simp add: first_slot_Some is_first_def)
  have e: "insert_entry (tbl, cnt) cap k v =
             (tbl[i0 := \<lparr>key = k, value = v\<rparr>], if key (tbl ! i0) = k then cnt + 1 else cnt)"
    using f by (simp add: insert_entry_def)
  have 1: "probe_inv (tbl[i0 := \<lparr>key = k, value = v\<rparr>]) cap"
    using inv c len f by (rule probe_inv_update)
  have 2: "live_keys (tbl[i0 := \<lparr>key = k, value = v\<rparr>]) = live_keys tbl \<union> ({k} - {KEY_INVALID})"
    using i0 p by (intro live_keys_update) (simp_all add: empty_or_def)
  have 4: "\<forall>k'. k' \<noteq> KEY_INVALID \<longrightarrow>
             lookup (tbl[i0 := \<lparr>key = k, value = v\<rparr>]) cap k' = upd k v (lookup tbl cap) k'"
  proof (intro allI impI)
    fix k' assume k': "k' \<noteq> KEY_INVALID"
    show "lookup (tbl[i0 := \<lparr>key = k, value = v\<rparr>]) cap k' = upd k v (lookup tbl cap) k'"
    proof (cases "k = KEY_INVALID")
      case True
      then have "key (tbl ! i0) = KEY_INVALID" using p by (simp add: empty_or_def)
      then show ?thesis using True lookup_update_sentinel[OF c len i0 _ k'] by (simp add: upd_def)
    next
      case False
      then show ?thesis using lookup_update[OF inv c len f False k'] by (simp add: upd_def)
    qed
  qed
  show ?thesis unfolding e using 1 2 4 ky by simp
qed

lemma launch_Cons_Return:
  "kern idx s = Return s' \<Longrightarrow> launch kern (idx # sched) s = launch kern sched s'"
  by (simp add: obind_def)

lemma launch_kernelInsert_frame:
  assumes c: "cap \<noteq> 0"
  shows "length (fst st) = unat cap \<Longrightarrow>
     \<exists>st' u. launch (kernelInsert cap dk dv nk) sched st = Return st'
        \<and> length (fst st') = unat cap
        \<and> u \<le> length (filter (\<lambda>i. i < unat nk) sched) \<and> snd st' = snd st + word_of_nat u
        \<and> (\<forall>i<unat cap. key (fst st ! i) \<noteq> KEY_INVALID
               \<and> key (fst st ! i) \<notin> (\<lambda>i. dk ! i) ` {i \<in> set sched. i < unat nk}
              \<longrightarrow> fst st' ! i = fst st ! i)"
proof (induction sched arbitrary: st)
  case Nil
  then show ?case by (intro exI[of _ st] exI[of _ 0]) simp
next
  case (Cons idx sched)
  let ?st1 = "if unat nk \<le> idx then st else insert_entry st cap (dk ! idx) (dv ! idx)"
  have t: "kernelInsert cap dk dv nk idx st = Return ?st1"
    using c Cons.prems by (rule kernelInsert_thread)
  have len1: "length (fst ?st1) = unat cap" using Cons.prems by simp
  obtain st' u where r: "launch (kernelInsert cap dk dv nk) sched ?st1 = Return st'"
    "length (fst st') = unat cap" "u \<le> length (filter (\<lambda>i. i < unat nk) sched)"
    "snd st' = snd ?st1 + word_of_nat u"
    "\<forall>i<unat cap. key (fst ?st1 ! i) \<noteq> KEY_INVALID
               \<and> key (fst ?st1 ! i) \<notin> (\<lambda>i. dk ! i) ` {i \<in> set sched. i < unat nk}
              \<longrightarrow> fst st' ! i = fst ?st1 ! i"
    using Cons.IH[OF len1] by blast
  have l: "launch (kernelInsert cap dk dv nk) (idx # sched) st = Return st'"
    using launch_Cons_Return[of "kernelInsert cap dk dv nk" idx st _ sched, OF t] r(1) by simp
  show ?case
  proof (cases "unat nk \<le> idx")
    case True
    then have [simp]: "?st1 = st" by simp
    have "{i \<in> set (idx # sched). i < unat nk} = {i \<in> set sched. i < unat nk}" using True by auto
    then show ?thesis using l r True by (intro exI[of _ st'] exI[of _ u]) simp
  next
    case False
    then have s1: "?st1 = insert_entry st cap (dk ! idx) (dv ! idx)" by simp
    have fr: "\<forall>i<unat cap. key (fst st ! i) \<noteq> KEY_INVALID
               \<and> key (fst st ! i) \<notin> (\<lambda>i. dk ! i) ` {i \<in> set (idx # sched). i < unat nk}
              \<longrightarrow> fst st' ! i = fst st ! i"
    proof (intro allI impI)
      fix i assume i: "i < unat cap" and
        a: "key (fst st ! i) \<noteq> KEY_INVALID \<and> key (fst st ! i) \<notin> (\<lambda>i. dk ! i) ` {i \<in> set (idx # sched). i < unat nk}"
      then have ne: "key (fst st ! i) \<noteq> dk ! idx" using False by auto
      have same: "fst ?st1 ! i = fst st ! i"
        unfolding s1 using c Cons.prems i a ne by (intro insert_entry_frame) simp_all
      have "key (fst st ! i) \<notin> (\<lambda>i. dk ! i) ` {i \<in> set sched. i < unat nk}" using a by auto
      then show "fst st' ! i = fst st ! i" using r(5) i same a by simp
    qed
    show ?thesis
    proof (cases "snd ?st1 = snd st")
      case True
      then show ?thesis using l r fr False by (intro exI[of _ st'] exI[of _ u]) simp
    next
      case F: False
      then have "snd ?st1 = snd st + 1" using insert_entry_count[of st cap "dk ! idx" "dv ! idx"] s1 by auto
      then have "snd st' = snd st + word_of_nat (Suc u)" using r(4) by simp
      then show ?thesis using l r fr False by (intro exI[of _ st'] exI[of _ "Suc u"]) simp
    qed
  qed
qed

lemma batch_map_Nil [simp]: "batch_map dk dv n [] m = m"
  by (simp add: batch_map_def)

lemma batch_map_Cons [simp]:
  "batch_map dk dv n (i # sched) m = batch_map dk dv n sched (if i < n then upd (dk ! i) (dv ! i) m else m)"
  by (simp add: batch_map_def)

lemma finite_live_keys [simp]: "finite (live_keys tbl)"
  by (simp add: live_keys_def)

lemma launch_kernelInsert_valid:
  assumes c: "cap \<noteq> 0"
  shows "length tbl = unat cap \<Longrightarrow> probe_inv tbl cap \<Longrightarrow>
     card (live_keys tbl) + length (filter (\<lambda>i. i < unat nk) sched) \<le> unat cap \<Longrightarrow>
     \<exists>tbl' u. launch (kernelInsert cap dk dv nk) sched (tbl, cnt) = Return (tbl', cnt + word_of_nat u)
        \<and> length tbl' = unat cap \<and> probe_inv tbl' cap
        \<and> live_keys tbl' = live_keys tbl \<union> ((\<lambda>i. dk ! i) ` {i \<in> set sched. i < unat nk} - {KEY_INVALID})
        \<and> card (live_keys tbl') + u = card (live_keys tbl) + length (filter (\<lambda>i. i < unat nk) sched)
        \<and> (\<forall>k. k \<noteq> KEY_INVALID \<longrightarrow> lookup tbl' cap k = batch_map dk dv (unat nk) sched (lookup tbl cap) k)"
proof (induction sched arbitrary: tbl cnt)
  case Nil
  then show ?case by (intro exI[of _ tbl] exI[of _ 0]) simp
next
  case (Cons idx sched)
  show ?case
  proof (cases "unat nk \<le> idx")
    case True
    have t: "kernelInsert cap dk dv nk idx (tbl, cnt) = Return (tbl, cnt)"
      using kernelInsert_thread[OF c, of "(tbl, cnt)"] Cons.prems(1) True by simp
    have e: "{i \<in> set (idx # sched). i < unat nk} = {i \<in> set sched. i < unat nk}" using True by auto
    have "card (live_keys tbl) + length (filter (\<lambda>i. i < unat nk) sched) \<le> unat cap"
      using Cons.prems(3) True by simp
    from Cons.IH[OF Cons.prems(1,2) this, of cnt] show ?thesis
      unfolding launch_Cons_Return[of "kernelInsert cap dk dv nk" idx "(tbl, cnt)" _ sched, OF t] e
      using True by simp
  next
    case False
    let ?k = "dk ! idx" and ?v = "dv ! idx"
    let ?st1 = "insert_entry (tbl, cnt) cap ?k ?v"
    have t: "kernelInsert cap dk dv nk idx (tbl, cnt) = Return ?st1"
      using kernelInsert_thread[OF c, of "(tbl, cnt)"] Cons.prems(1) False by simp
    have room: "card (live_keys tbl) < unat cap" using Cons.prems(3) False by simp
    note eff = insert_entry_effect[OF Cons.prems(2) c Cons.prems(1) room, of cnt ?k ?v]
    let ?t1 = "fst ?st1"
    let ?d = "if ?k \<in> live_keys tbl \<or> ?k = KEY_INVALID then 1 else (0::nat)"
    have s1: "?st1 = (?t1, cnt + word_of_nat ?d)" using eff by (cases ?st1) auto
    have len1: "length ?t1 = unat cap" using Cons.prems(1) by simp
    have inv1: "probe_inv ?t1 cap" using eff by simp
    have lk1: "live_keys ?t1 = live_keys tbl \<union> ({?k} - {KEY_INVALID})" using eff by simp
    have card1: "card (live_keys ?t1) + ?d = Suc (card (live_keys tbl))"
    proof (cases "?k \<in> live_keys tbl \<or> ?k = KEY_INVALID")
      case True
      then have "live_keys tbl \<union> ({?k} - {KEY_INVALID}) = live_keys tbl" by auto
      then show ?thesis using True lk1 by simp
    next
      case False
      then have "live_keys tbl \<union> ({?k} - {KEY_INVALID}) = insert ?k (live_keys tbl)" by auto
      then show ?thesis using False lk1 by simp
    qed
    have room1: "card (live_keys ?t1) + length (filter (\<lambda>i. i < unat nk) sched) \<le> unat cap"
      using Cons.prems(3) False card1 by simp
    obtain tbl' u where r:
      "launch (kernelInsert cap dk dv nk) sched (?t1, cnt + word_of_nat ?d) = Return (tbl', cnt + word_of_nat ?d + word_of_nat u)"
      "length tbl' = unat cap" "probe_inv tbl' cap"
      "live_keys tbl' = live_keys ?t1 \<union> ((\<lambda>i. dk ! i) ` {i \<in> set sched. i < unat nk} - {KEY_INVALID})"
      "card (live_keys tbl') + u = card (live_keys ?t1) + length (filter (\<lambda>i. i < unat nk) sched)"
      "\<forall>k. k \<noteq> KEY_INVALID \<longrightarrow> lookup tbl' cap k = batch_map dk dv (unat nk) sched (lookup ?t1 cap) k"
      using Cons.IH[OF len1 inv1 room1, of "cnt + word_of_nat ?d"] by blast
    have l: "launch (kernelInsert cap dk dv nk) (idx # sched) (tbl, cnt) = Return (tbl', cnt + word_of_nat (?d + u))"
      using launch_Cons_Return[of "kernelInsert cap dk dv nk" idx "(tbl, cnt)" _ sched, OF t] r(1) s1
      by (simp add: add.assoc)
    have e: "{i \<in> set (idx # sched). i < unat nk} = insert idx {i \<in> set sched. i < unat nk}"
      using False by auto
    have lk: "live_keys tbl' = live_keys tbl \<union> ((\<lambda>i. dk ! i) ` {i \<in> set (idx # sched). i < unat nk} - {KEY_INVALID})"
      unfolding e r(4) lk1 by auto
    have cd: "card (live_keys tbl') + (?d + u) = card (live_keys tbl) + length (filter (\<lambda>i. i < unat nk) (idx # sched))"
      using r(5) card1 False by simp
    have lu: "\<forall>k. k \<noteq> KEY_INVALID \<longrightarrow> lookup tbl' cap k = batch_map dk dv (unat nk) (idx # sched) (lookup tbl cap) k"
    proof (intro allI impI)
      fix k assume k: "k \<noteq> KEY_INVALID"
      have "\<And>m m'. (\<forall>k. k \<noteq> KEY_INVALID \<longrightarrow> m k = m' k) \<Longrightarrow>
               (\<forall>k. k \<noteq> KEY_INVALID \<longrightarrow> batch_map dk dv (unat nk) sched m k = batch_map dk dv (unat nk) sched m' k)"
      proof (induction sched)
        case Nil
        then show ?case by simp
      next
        case (Cons j js)
        show ?case
          by (simp only: batch_map_Cons, rule Cons.IH) (use Cons.prems in \<open>auto simp: upd_def\<close>)
      qed
      from this[of "lookup ?t1 cap" "upd ?k ?v (lookup tbl cap)"] eff
      have "batch_map dk dv (unat nk) sched (lookup ?t1 cap) k = batch_map dk dv (unat nk) sched (upd ?k ?v (lookup tbl cap)) k"
        using k by simp
      then show "lookup tbl' cap k = batch_map dk dv (unat nk) (idx # sched) (lookup tbl cap) k"
        using r(6) k False by simp
    qed
    show ?thesis using l r(2,3) lk cd lu by (intro exI[of _ tbl'] exI[of _ "?d + u"]) simp
  qed
qed

lemma batch_map_other:
  "k \<notin> (\<lambda>i. dk ! i) ` {i \<in> set sched. i < n} \<Longrightarrow> batch_map dk dv n sched m k = m k"
proof (induction sched arbitrary: m)
  case Nil
  then show ?case by simp
next
  case (Cons j js)
  have "k \<notin> (\<lambda>i. dk ! i) ` {i \<in> set js. i < n}" using Cons.prems by auto
  then have "batch_map dk dv n js (if j < n then upd (dk ! j) (dv ! j) m else m) k
              = (if j < n then upd (dk ! j) (dv ! j) m else m) k" by (rule Cons.IH)
  moreover have "j < n \<Longrightarrow> dk ! j \<noteq> k" using Cons.prems by auto
  ultimately show ?case by (auto simp: upd_def)
qed

lemma batch_map_distinct:
  assumes "distinct dk" "n \<le> length dk" "i < n" "dk ! i \<noteq> KEY_INVALID"
  shows "i \<in> set sched \<or> m (dk ! i) = Some (dv ! i) \<Longrightarrow> batch_map dk dv n sched m (dk ! i) = Some (dv ! i)"
proof (induction sched arbitrary: m)
  case Nil
  then show ?case by simp
next
  case (Cons j js)
  let ?m = "if j < n then upd (dk ! j) (dv ! j) m else m"
  have "i \<in> set js \<or> ?m (dk ! i) = Some (dv ! i)"
  proof (cases "j = i")
    case True
    then show ?thesis using assms(3,4) by (simp add: upd_def)
  next
    case False
    have "j < n \<Longrightarrow> dk ! j \<noteq> dk ! i"
      using assms(1,2,3) False by (simp add: nth_eq_iff_index_eq)
    then show ?thesis using Cons.prems False by (auto simp: upd_def)
  qed
  then show ?case using Cons.IH[of ?m] by simp
qed

lemma kernelGet_thread:
  assumes "cap \<noteq> 0"
  shows "kernelGet tbl cap dk nk idx dv =
           (if unat nk \<le> idx then Return dv
            else case lookup tbl cap (dk ! idx) of
                   None \<Rightarrow> Hang
                 | Some v \<Rightarrow> Return (dv[idx := Some v]))"
proof (cases "first_slot (has_key tbl (dk ! idx)) cap (dk ! idx)")
  case None
  then have no: "\<forall>i<unat cap. key (tbl ! i) \<noteq> dk ! idx"
    using assms by (simp add: first_slot_None has_key_def)
  have "kernelGet_loop tbl cap (dk ! idx) (hashFunc (dk ! idx) mod cap) = None"
  proof (cases "kernelGet_loop tbl cap (dk ! idx) (hashFunc (dk ! idx) mod cap)")
    case (Some v)
    then show ?thesis using kernelGet_loop_Some[OF Some] assms home_less[OF assms] no by blast
  qed simp
  then show ?thesis using None assms by (simp add: kernelGet_def lookup_def)
next
  case (Some i)
  then have "kernelGet_loop tbl cap (dk ! idx) (hashFunc (dk ! idx) mod cap) = Some (value (tbl ! i))"
    using assms home_less[OF assms] by (intro kernelGet_loop_scan[where f = "unat cap"]) (simp_all add: first_slot_def home_def)
  then show ?thesis using Some assms by (simp add: kernelGet_def lookup_def)
qed

lemma collect_length [simp]: "length (collect g n sched dv) = length dv"
  unfolding collect_def by (induction sched arbitrary: dv) auto

lemma collect_nth:
  "j < length dv \<Longrightarrow> collect g n sched dv ! j = (if j \<in> set sched \<and> j < n then g j else dv ! j)"
  unfolding collect_def
proof (induction sched arbitrary: dv)
  case Nil
  then show ?case by simp
next
  case (Cons i sched)
  then show ?case by (auto simp: nth_list_update)
qed

lemma launch_kernelGet_Return:
  assumes "cap \<noteq> 0"
  shows "(\<forall>i \<in> set sched. i < unat nk \<longrightarrow> lookup tbl cap (dk ! i) \<noteq> None) \<Longrightarrow>
     launch (kernelGet tbl cap dk nk) sched dv =
       Return (collect (\<lambda>i. lookup tbl cap (dk ! i)) (unat nk) sched dv)"
proof (induction sched arbitrary: dv)
  case Nil
  then show ?case by (simp add: collect_def)
next
  case (Cons i sched)
  show ?case
  proof (cases "unat nk \<le> i")
    case True
    then show ?thesis using Cons kernelGet_thread[OF assms, of tbl dk nk i dv]
      by (simp add: obind_def collect_def)
  next
    case False
    then obtain v where v: "lookup tbl cap (dk ! i) = Some v" using Cons.prems by auto
    then show ?thesis using Cons False kernelGet_thread[OF assms, of tbl dk nk i dv]
      by (simp add: obind_def collect_def)
  qed
qed

lemma launch_kernelGet_Hang:
  assumes "cap \<noteq> 0"
  shows "\<exists>i \<in> set sched. i < unat nk \<and> lookup tbl cap (dk ! i) = None \<Longrightarrow>
     launch (kernelGet tbl cap dk nk) sched dv = Hang"
proof (induction sched arbitrary: dv)
  case Nil
  then show ?case by simp
next
  case (Cons i sched)
  show ?case
  proof (cases "unat nk \<le> i")
    case True
    then have "\<exists>i \<in> set sched. i < unat nk \<and> lookup tbl cap (dk ! i) = None" using Cons.prems by auto
    then show ?thesis using Cons.IH True kernelGet_thread[OF assms, of tbl dk nk i dv]
      by (simp add: obind_def)
  next
    case False
    show ?thesis
    proof (cases "lookup tbl cap (dk ! i)")
      case None
      then show ?thesis using False kernelGet_thread[OF assms, of tbl dk nk i dv]
        by (simp add: obind_def)
    next
      case (Some v)
      then have "\<exists>i \<in> set sched. i < unat nk \<and> lookup tbl cap (dk ! i) = None" using Cons.prems by auto
      then show ?thesis using Cons.IH Some False kernelGet_thread[OF assms, of tbl dk nk i dv]
        by (simp add: obind_def)
    qed
  qed
qed

lemma covers_iff: "covers sched n \<longleftrightarrow> distinct sched \<and> (\<forall>i<n. i \<in> set sched)"
  by (auto simp: covers_def)

lemma unat_of_nat_len: "n < 2 ^ 32 \<Longrightarrow> unat (word_of_nat n :: uint32) = n"
  by (simp add: unat_of_nat)

lemma getBatch_present:
  assumes c: "capacity t \<noteq> 0" and n: "length keys < 2 ^ 32" and cov: "covers sched (length keys)"
    and p: "\<forall>k \<in> set keys. lookup (table t) (capacity t) k \<noteq> None"
  shows "getBatch t keys sched =
           Return (if keys = [] then NULL
                   else Values (map (\<lambda>k. the (lookup (table t) (capacity t) k)) keys), t)"
proof (cases "keys = []")
  case True
  then show ?thesis by (simp add: getBatch_def)
next
  case False
  let ?g = "\<lambda>i. lookup (table t) (capacity t) (keys ! i)"
  let ?nk = "word_of_nat (length keys) :: uint32"
  have nk: "unat ?nk = length keys" using n by (rule unat_of_nat_len)
  have "\<forall>i \<in> set sched. i < unat ?nk \<longrightarrow> ?g i \<noteq> None" using p nk by simp
  then have l: "launch (kernelGet (table t) (capacity t) keys ?nk) sched (replicate (length keys) None)
           = Return (collect ?g (length keys) sched (replicate (length keys) None))"
    using launch_kernelGet_Return[OF c, of sched ?nk "table t" keys] nk by simp
  have e: "collect ?g (length keys) sched (replicate (length keys) None) = map (lookup (table t) (capacity t)) keys"
    using cov by (intro nth_equalityI) (auto simp: collect_nth covers_iff)
  have "None \<notin> set (map (lookup (table t) (capacity t)) keys)" using p by auto
  then show ?thesis using False l e by (simp add: getBatch_def obind_def comp_def)
qed

lemma getBatch_absent:
  assumes c: "capacity t \<noteq> 0" and n: "length keys < 2 ^ 32" and cov: "covers sched (length keys)"
    and p: "\<exists>k \<in> set keys. lookup (table t) (capacity t) k = None"
  shows "getBatch t keys sched = Hang"
proof -
  let ?nk = "word_of_nat (length keys) :: uint32"
  have nk: "unat ?nk = length keys" using n by (rule unat_of_nat_len)
  obtain i where i: "i < length keys" "lookup (table t) (capacity t) (keys ! i) = None"
    using p by (auto simp: in_set_conv_nth)
  then have "\<exists>i \<in> set sched. i < unat ?nk \<and> lookup (table t) (capacity t) (keys ! i) = None"
    using cov nk by (auto simp: covers_iff)
  then have "launch (kernelGet (table t) (capacity t) keys ?nk) sched (replicate (length keys) None) = Hang"
    by (rule launch_kernelGet_Hang[OF c])
  moreover have "keys \<noteq> []" using i by auto
  ultimately show ?thesis by (simp add: getBatch_def obind_def)
qed

lemma cudaMemset_KEY_INVALID:
  "cudaMemset KEY_INVALID n = replicate n \<lparr>key = KEY_INVALID, value = KEY_INVALID\<rparr>"
proof -
  have "cudaMemset_word KEY_INVALID = KEY_INVALID" by code_simp
  then show ?thesis by (simp add: cudaMemset_def)
qed

lemma live_keys_empty_table [simp]:
  "live_keys (replicate n \<lparr>key = KEY_INVALID, value = v\<rparr>) = {}"
  by (auto simp: live_keys_def)

lemma probe_inv_empty_table [simp]:
  "probe_inv (replicate n \<lparr>key = KEY_INVALID, value = v\<rparr>) cap"
  by (simp add: probe_inv_def)

lemma lookup_not_live:
  assumes "length tbl = unat cap" "k \<notin> live_keys tbl" "k \<noteq> KEY_INVALID"
  shows "lookup tbl cap k = None"
proof (cases "cap = 0")
  case True
  then show ?thesis by (simp add: lookup_def first_slot_def)
next
  case False
  then show ?thesis using lookup_dom[OF False assms(1,3)] assms(2) by simp
qed

lemma kernelReshape_thread:
  assumes "nc \<noteq> 0" "length new = unat nc"
  shows "kernelReshape old oc new nc idx =
           Return (if active old oc idx
                   then (case first_slot (is_empty new) nc (key (old ! idx)) of
                           None \<Rightarrow> new
                         | Some i \<Rightarrow> new[i := \<lparr>key = key (old ! idx), value = value (old ! idx)\<rparr>])
                   else new)"
  using kernelReshape_loop_scan[where h = "hashFunc (key (old ! idx)) mod nc" and e = "old ! idx"
            and cap = nc and tbl = new]
      assms home_less[OF assms(1), of "key (old ! idx)"]
  by (auto simp add: kernelReshape_def active_def first_slot_def home_def probe_left_home
           simp del: kernelReshape_loop.simps)

lemma kernelReshape_inactive:
  "\<not> active old oc idx \<Longrightarrow> kernelReshape old oc new nc idx = Return new"
  by (auto simp: kernelReshape_def active_def)

lemma kernelReshape_thread_insert:
  assumes c: "nc \<noteq> 0" and len: "length new = unat nc" and a: "active old oc idx"
    and nk: "key (old ! idx) \<notin> live_keys new"
  shows "kernelReshape old oc new nc idx =
           Return (fst (insert_entry (new, cnt) nc (key (old ! idx)) (value (old ! idx))))"
proof -
  let ?k = "key (old ! idx)"
  have k: "?k \<noteq> KEY_INVALID" using a by (simp add: active_def)
  have "\<And>i. i < unat nc \<Longrightarrow> is_empty new i = empty_or new ?k i"
  proof -
    fix i assume "i < unat nc"
    then have "key (new ! i) \<noteq> ?k" using nk k len by (auto simp: live_keys_nth)
    then show "is_empty new i = empty_or new ?k i" by (simp add: is_empty_def empty_or_def)
  qed
  then have "first_slot (is_empty new) nc ?k = first_slot (empty_or new ?k) nc ?k"
    using c by (rule first_slot_cong)
  then show ?thesis using kernelReshape_thread[OF c len, of old oc idx] a
    by (simp add: insert_entry_def split: option.splits)
qed

lemma launch_kernelReshape_inactive:
  "\<forall>i \<in> set sched. \<not> active old oc i \<Longrightarrow>
     launch (\<lambda>idx new_table. kernelReshape old oc new_table nc idx) sched new = Return new"
  by (induction sched) (simp_all add: kernelReshape_inactive obind_def)

lemma launch_kernelReshape_valid:
  assumes c: "nc \<noteq> 0" and oinv: "probe_inv old oc" and olen: "length old = unat oc"
  shows "distinct sched \<Longrightarrow> length new = unat nc \<Longrightarrow> probe_inv new nc \<Longrightarrow>
     live_keys new \<inter> (\<lambda>i. key (old ! i)) ` {i \<in> set sched. active old oc i} = {} \<Longrightarrow>
     card (live_keys new) + length (filter (active old oc) sched) \<le> unat nc \<Longrightarrow>
     \<exists>new'. launch (\<lambda>idx new_table. kernelReshape old oc new_table nc idx) sched new = Return new'
        \<and> length new' = unat nc \<and> probe_inv new' nc
        \<and> live_keys new' = live_keys new \<union> (\<lambda>i. key (old ! i)) ` {i \<in> set sched. active old oc i}
        \<and> (\<forall>k. k \<noteq> KEY_INVALID \<longrightarrow>
              lookup new' nc k = (if k \<in> (\<lambda>i. key (old ! i)) ` {i \<in> set sched. active old oc i}
                                  then lookup old oc k else lookup new nc k))"
proof (induction sched arbitrary: new)
  case Nil
  then show ?case by simp
next
  case (Cons idx sched)
  let ?K = "\<lambda>s. (\<lambda>i. key (old ! i)) ` {i \<in> set s. active old oc i}"
  let ?L = "\<lambda>idx new_table. kernelReshape old oc new_table nc idx"
  have d: "distinct sched" "idx \<notin> set sched" using Cons.prems(1) by simp_all
  show ?case
  proof (cases "active old oc idx")
    case False
    have t: "?L idx new = Return new" using False by (simp add: kernelReshape_inactive)
    have e: "?K (idx # sched) = ?K sched" using False by auto
    have "card (live_keys new) + length (filter (active old oc) sched) \<le> unat nc"
      using Cons.prems(5) False by simp
    from Cons.IH[OF d(1) Cons.prems(2,3) _ this] Cons.prems(4) show ?thesis
      unfolding e launch_Cons_Return[of ?L idx new _ sched, OF t] by simp
  next
    case True
    let ?k = "key (old ! idx)" and ?v = "value (old ! idx)"
    have k: "?k \<noteq> KEY_INVALID" and il: "idx < length old" using True olen by (simp_all add: active_def)
    then have oc0: "oc \<noteq> 0" using olen by auto
    have nk: "?k \<notin> live_keys new" using Cons.prems(4) True by auto
    let ?n1 = "fst (insert_entry (new, 0) nc ?k ?v)"
    have t: "?L idx new = Return ?n1"
      using c Cons.prems(2) True nk by (rule kernelReshape_thread_insert)
    have room: "card (live_keys new) < unat nc" using Cons.prems(5) True by simp
    note eff = insert_entry_effect[OF Cons.prems(3) c Cons.prems(2) room, of 0 ?k ?v]
    have len1: "length ?n1 = unat nc" using Cons.prems(2) by simp
    have inv1: "probe_inv ?n1 nc" using eff by simp
    have lk1: "live_keys ?n1 = insert ?k (live_keys new)" using eff k by auto
    have e: "?K (idx # sched) = insert ?k (?K sched)" using True by auto
    have notin: "?k \<notin> ?K sched"
    proof
      assume "?k \<in> ?K sched"
      then obtain j where j: "j \<in> set sched" "active old oc j" "key (old ! j) = ?k" by auto
      then have "j < length old" using olen by (simp add: active_def)
      then have "idx = j" using probe_inv_inj[OF oinv oc0 olen il _ _ k] j(3) by simp
      then show False using j(1) d(2) by simp
    qed
    have dis1: "live_keys ?n1 \<inter> ?K sched = {}" using Cons.prems(4) lk1 notin e by auto
    have "card (live_keys ?n1) = Suc (card (live_keys new))" using lk1 nk by simp
    then have room1: "card (live_keys ?n1) + length (filter (active old oc) sched) \<le> unat nc"
      using Cons.prems(5) True by simp
    obtain new' where r: "launch ?L sched ?n1 = Return new'" "length new' = unat nc" "probe_inv new' nc"
      "live_keys new' = live_keys ?n1 \<union> ?K sched"
      "\<forall>k. k \<noteq> KEY_INVALID \<longrightarrow> lookup new' nc k = (if k \<in> ?K sched then lookup old oc k else lookup ?n1 nc k)"
      using Cons.IH[OF d(1) len1 inv1 dis1 room1] by blast
    have l: "launch ?L (idx # sched) new = Return new'"
      using launch_Cons_Return[of ?L idx new _ sched, OF t] r(1) by simp
    have lo: "lookup old oc ?k = Some ?v" using oinv oc0 olen il refl k by (rule lookup_present)
    have lu: "\<forall>k. k \<noteq> KEY_INVALID \<longrightarrow>
          lookup new' nc k = (if k \<in> ?K (idx # sched) then lookup old oc k else lookup new nc k)"
    proof (intro allI impI)
      fix k' assume k': "k' \<noteq> KEY_INVALID"
      have "lookup ?n1 nc k' = upd ?k ?v (lookup new nc) k'" using eff k' by simp
      then show "lookup new' nc k' = (if k' \<in> ?K (idx # sched) then lookup old oc k' else lookup new nc k')"
        using r(5) k' lo k unfolding e by (auto simp: upd_def)
    qed
    have lk: "live_keys new' = live_keys new \<union> ?K (idx # sched)"
      unfolding r(4) lk1 e by auto
    show ?thesis using l r(2,3) lu lk by (intro exI[of _ new']) simp
  qed
qed

lemma projected_unat:
  assumes "unat (used_buckets t) + n \<le> max_projected"
  shows "unat (used_buckets t + word_of_nat n :: uint32) = unat (used_buckets t) + n"
proof -
  have "n < 2 ^ 32" using assms by (simp add: max_projected_def)
  then have "unat (word_of_nat n :: uint32) = n" by (rule unat_of_nat_len)
  moreover have "unat (used_buckets t) + n < 2 ^ 32" using assms by (simp add: max_projected_def)
  ultimately show ?thesis by (simp add: unat_word_ariths)
qed

lemma target_bound:
  assumes "x \<le> max_projected"
  shows "2 * f32 x < 2 ^ 31" "2 * f32 x < 2 ^ 32"
proof -
  have "f32 x \<le> f32 max_projected" using assms by (rule f32_mono)
  then have "f32 x \<le> max_projected" by (simp only: f32_max_projected)
  then have "f32 x \<le> 2 ^ 30 - 64" by (simp only: max_projected_def)
  then show "2 * f32 x < 2 ^ 31" "2 * f32 x < 2 ^ 32" by simp_all
qed

lemma insertBatch_unfold:
  assumes "keys \<noteq> []" "length keys \<le> length values"
    and "unat (used_buckets t) + length keys \<le> max_projected"
  shows "insertBatch t keys values rsched isched =
     obind (if resize_needed t (length keys)
            then reshape t (int (2 * f32 (unat (used_buckets t) + length keys))) rsched
            else Return t)
       (\<lambda>t1. obind
          (launch (kernelInsert (capacity t1) keys (take (length keys) values)
                     (word_of_nat (length keys))) isched (table t1, 0))
          (\<lambda>(tbl, cnt). Return (True, t1\<lparr>table := tbl,
               used_buckets := used_buckets t1 + (word_of_nat (length keys) - cnt)\<rparr>)))"
proof -
  have "int_of_float (float_div (float_of_uint32 (used_buckets t + word_of_nat (length keys))) MIN_LOAD_FACTOR)
        = Some (int (2 * f32 (unat (used_buckets t) + length keys)))"
    using target_bound(1)[OF assms(3)] by (simp add: new_capacity projected_unat[OF assms(3)])
  then show ?thesis using assms(1,2)
    by (simp add: insertBatch_def Let_def resize_needed_def)
qed

lemma launch_kernelReshape_returns:
  assumes "nc \<noteq> 0"
  shows "length new = unat nc \<Longrightarrow>
     \<exists>new'. launch (\<lambda>idx new_table. kernelReshape old oc new_table nc idx) sched new = Return new'
        \<and> length new' = unat nc"
proof (induction sched arbitrary: new)
  case Nil
  then show ?case by simp
next
  case (Cons idx sched)
  let ?L = "\<lambda>idx new_table. kernelReshape old oc new_table nc idx"
  obtain n1 where t: "?L idx new = Return n1" and l1: "length n1 = unat nc"
    using kernelReshape_thread[OF assms Cons.prems, of old oc idx] Cons.prems
    by (auto split: option.splits)
  show ?case using Cons.IH[OF l1] unfolding launch_Cons_Return[of ?L idx new _ sched, OF t] .
qed

lemma reshape_returns:
  assumes "0 < c" "c < 2 ^ 32"
  shows "\<exists>new'. reshape t c sched = Return (t\<lparr>table := new', capacity := word_of_int c\<rparr>)
            \<and> length new' = nat c"
proof -
  let ?nc = "word_of_int c :: uint32"
  have u: "unat ?nc = nat c" using assms by (simp add: unat_eq_nat_uint uint_word_of_int take_bit_int_eq_self)
  then have nz: "?nc \<noteq> 0" using assms(1) by (metis nat_0_iff not_less unat_0 order_less_imp_le)
  have "length (cudaMemset KEY_INVALID (nat c)) = unat ?nc" using u by (simp add: cudaMemset_def)
  from launch_kernelReshape_returns[OF nz this, of "table t" "capacity t" sched] u
  show ?thesis using assms by (auto simp: reshape_def Let_def obind_def)
qed

lemma covers_active_le:
  assumes "covers sched n"
  shows "length (filter (\<lambda>i. i < n) sched) = n"
proof -
  have d: "distinct sched" and s: "\<forall>i<n. i \<in> set sched" using assms by (simp_all add: covers_iff)
  have "distinct (filter (\<lambda>i. i < n) sched)" using d by simp
  then have "length (filter (\<lambda>i. i < n) sched) = card (set (filter (\<lambda>i. i < n) sched))"
    by (rule distinct_card [symmetric])
  also have "set (filter (\<lambda>i. i < n) sched) = {..<n}" using s by auto
  finally show ?thesis by simp
qed

lemma insertBatch_shape:
  assumes ne: "keys \<noteq> []" and lv: "length keys \<le> length values"
    and size: "unat (used_buckets t) + length keys \<le> max_projected"
    and len: "length (table t) = unat (capacity t)"
    and cov: "covers isched (length keys)"
  shows "\<exists>t' u. insertBatch t keys values rsched isched = Return (True, t')
      \<and> u \<le> length keys
      \<and> unat (used_buckets t') = unat (used_buckets t) + length keys - u
      \<and> capacity t' = (if resize_needed t (length keys)
                        then word_of_nat (2 * f32 (unat (used_buckets t) + length keys))
                        else capacity t)
      \<and> unat (capacity t') = (if resize_needed t (length keys)
                        then 2 * f32 (unat (used_buckets t) + length keys)
                        else unat (capacity t))
      \<and> unat (used_buckets t) + length keys \<le> unat (capacity t')
      \<and> length (table t') = unat (capacity t')
      \<and> (\<not> resize_needed t (length keys) \<longrightarrow>
           (\<forall>i<unat (capacity t). key (table t ! i) \<noteq> KEY_INVALID \<and> key (table t ! i) \<notin> set keys
              \<longrightarrow> table t' ! i = table t ! i))"
proof -
  let ?n = "length keys"
  let ?x = "unat (used_buckets t) + ?n"
  let ?nk = "word_of_nat ?n :: uint32"
  have nk: "unat ?nk = ?n" using size by (intro unat_of_nat_len) (simp add: max_projected_def)
  have xw: "unat (used_buckets t + ?nk) = ?x" using size by (rule projected_unat)
  have x0: "used_buckets t + ?nk \<noteq> 0" using xw ne by (metis add_is_0 length_0_conv unat_0)
  obtain t1 where t1: "(if resize_needed t ?n then reshape t (int (2 * f32 ?x)) rsched else Return t) = Return t1"
    and c1: "capacity t1 = (if resize_needed t ?n then word_of_nat (2 * f32 ?x) else capacity t)"
    and u1: "unat (capacity t1) = (if resize_needed t ?n then 2 * f32 ?x else unat (capacity t))"
    and l1: "length (table t1) = unat (capacity t1)"
    and us1: "used_buckets t1 = used_buckets t"
    and tb1: "\<not> resize_needed t ?n \<longrightarrow> table t1 = table t"
  proof (cases "resize_needed t ?n")
    case True
    have p: "0 < f32 ?x" using ne by (intro f32_pos) simp
    then have a: "0 < int (2 * f32 ?x)" by simp
    have "2 * f32 ?x < 2 ^ 32" using size by (rule target_bound(2))
    then have b1: "2 * f32 ?x < 4294967296" by simp
    then have b: "int (2 * f32 ?x) < 2 ^ 32" by simp
    obtain new' where r: "reshape t (int (2 * f32 ?x)) rsched = Return (t\<lparr>table := new', capacity := word_of_int (int (2 * f32 ?x))\<rparr>)"
      "length new' = nat (int (2 * f32 ?x))"
      using reshape_returns[OF a b] by blast
    have w: "(word_of_int (int (2 * f32 ?x)) :: uint32) = word_of_nat (2 * f32 ?x)" by simp
    have "unat (word_of_nat (2 * f32 ?x) :: uint32) = 2 * f32 ?x"
      using b1 by (intro unat_of_nat_len) simp
    then show ?thesis using True r w by (intro that[of "t\<lparr>table := new', capacity := word_of_nat (2 * f32 ?x)\<rparr>"]) simp_all
  next
    case False
    then show ?thesis using len by (intro that[of t]) simp_all
  qed
  have room: "?x \<le> unat (capacity t1)"
  proof (cases "resize_needed t ?n")
    case True
    then show ?thesis using u1 f32_lower[of ?x] by simp
  next
    case False
    then have "unat (used_buckets t + ?nk) < unat (capacity t)"
      using x0 by (intro no_resize_room) (simp add: resize_needed_def)
    then show ?thesis using False u1 xw by simp
  qed
  then have cz: "capacity t1 \<noteq> 0" using ne by (metis add_is_0 le_zero_eq length_0_conv unat_0)
  have tk: "take ?n keys = keys" by simp
  obtain st' u where r: "launch (kernelInsert (capacity t1) keys (take ?n values) ?nk) isched (table t1, 0) = Return st'"
    "length (fst st') = unat (capacity t1)" "u \<le> length (filter (\<lambda>i. i < unat ?nk) isched)"
    "snd st' = 0 + word_of_nat u"
    "\<forall>i<unat (capacity t1). key (table t1 ! i) \<noteq> KEY_INVALID
               \<and> key (table t1 ! i) \<notin> (\<lambda>i. keys ! i) ` {i \<in> set isched. i < unat ?nk}
              \<longrightarrow> fst st' ! i = table t1 ! i"
    using launch_kernelInsert_frame[OF cz, of "(table t1, 0)" keys "take ?n values" ?nk isched] l1
    by auto
  have un: "u \<le> ?n" using r(3) covers_active_le[OF cov] nk by simp
  let ?t' = "t1\<lparr>table := fst st', used_buckets := used_buckets t1 + (?nk - snd st')\<rparr>"
  have res: "insertBatch t keys values rsched isched = Return (True, ?t')"
    unfolding insertBatch_unfold[OF ne lv size] t1 using r(1)
    by (simp add: obind_def split: prod.splits)
  have "?nk - snd st' = word_of_nat (?n - u)" using r(4) un by (simp add: of_nat_diff)
  moreover have "unat (used_buckets t + (word_of_nat (?n - u) :: uint32)) = unat (used_buckets t) + (?n - u)"
    using size by (intro projected_unat) simp
  ultimately have used: "unat (used_buckets ?t') = ?x - u" using us1 un by simp
  have frame: "\<not> resize_needed t ?n \<longrightarrow>
           (\<forall>i<unat (capacity t). key (table t ! i) \<noteq> KEY_INVALID \<and> key (table t ! i) \<notin> set keys
              \<longrightarrow> table ?t' ! i = table t ! i)"
  proof (intro impI allI)
    fix i assume nr: "\<not> resize_needed t ?n" and i: "i < unat (capacity t)"
      and k: "key (table t ! i) \<noteq> KEY_INVALID \<and> key (table t ! i) \<notin> set keys"
    have "(\<lambda>i. keys ! i) ` {i \<in> set isched. i < unat ?nk} \<subseteq> set keys" using nk by auto
    then have "key (table t ! i) \<notin> (\<lambda>i. keys ! i) ` {i \<in> set isched. i < unat ?nk}" using k by auto
    then show "table ?t' ! i = table t ! i" using r(5) nr tb1 c1 i k by simp
  qed
  show ?thesis using res un used c1 u1 room r(2) frame by (intro exI[of _ ?t'] exI[of _ u]) simp
qed

lemma round32_midpoint: "round32 (26843547 / 33554432) = 13421774 / 16777216"
  by code_simp

lemma float_div_nat:
  "float_div (Finite (of_nat a)) (Finite (of_nat b)) =
     (if b = 0 then (if a = 0 then NaN else PInf) else Finite (round32 (of_nat a / of_nat b)))"
  by simp

lemma loadFactor_nat:
  "loadFactor xw cw =
     (if f32 (unat cw) = 0 then (if f32 (unat xw) = 0 then NaN else PInf)
      else Finite (round32 (of_nat (f32 (unat xw)) / of_nat (f32 (unat cw)))))"
  unfolding loadFactor_def float_of_uint32_eq by (rule float_div_nat)

lemma threshold_exact:
  fixes x c :: nat
  assumes c: "c \<le> 4793490" "0 < c"
  shows "13421773 / 16777216 < round32 (of_nat x / of_nat c) \<longleftrightarrow> 4 * c < 5 * x"
proof
  have cp: "(0::rat) < of_nat c" using c(2) by simp
  assume g: "13421773 / 16777216 < round32 (of_nat x / of_nat c)"
  show "4 * c < 5 * x"
  proof (rule ccontr)
    assume "\<not> 4 * c < 5 * x"
    then have "5 * x \<le> 4 * c" by simp
    then have "(of_nat (5 * x) :: rat) \<le> of_nat (4 * c)" by (simp only: of_nat_le_iff)
    then have "(of_nat x :: rat) / of_nat c \<le> 4 / 5" using cp by (simp add: divide_le_eq)
    then have "round32 (of_nat x / of_nat c) \<le> round32 (4 / 5)" by (intro round32_mono) simp_all
    then show False using g MAX_LOAD_FACTOR_eq by (simp add: MAX_LOAD_FACTOR_def)
  qed
next
  have cp: "(0::rat) < of_nat c" using c(2) by simp
  assume a: "4 * c < 5 * x"
  then have "26843547 * c \<le> x * 33554432" using c by simp
  then have "(of_nat (26843547 * c) :: rat) \<le> of_nat (x * 33554432)" by (simp only: of_nat_le_iff)
  then have "(26843547 / 33554432 :: rat) \<le> of_nat x / of_nat c"
    using cp by (simp add: le_divide_eq)
  then have "round32 (26843547 / 33554432) \<le> round32 (of_nat x / of_nat c)"
    by (intro round32_mono) simp_all
  then show "13421773 / 16777216 < round32 (of_nat x / of_nat c)"
    by (simp add: round32_midpoint)
qed

lemma resize_exact:
  assumes x: "unat xw < 2 ^ 24" and c: "unat cw \<le> 4793490"
  shows "float_gt (loadFactor xw cw) MAX_LOAD_FACTOR \<longleftrightarrow> 4 * unat cw < 5 * unat xw"
proof -
  let ?x = "unat xw" and ?c = "unat cw"
  have fx: "f32 ?x = ?x" using x by (rule f32_small)
  have fc: "f32 ?c = ?c" using c by (intro f32_small) simp
  show ?thesis
  proof (cases "?c = 0")
    case True
    have "loadFactor xw cw = (if ?x = 0 then NaN else PInf)"
      unfolding loadFactor_nat fx fc using True by (simp only: simp_thms if_True)
    then show ?thesis using True by (simp add: MAX_LOAD_FACTOR_eq)
  next
    case False
    have lf: "loadFactor xw cw = Finite (round32 (of_nat ?x / of_nat ?c))"
      unfolding loadFactor_nat fx fc using False by (simp only: if_False)
    have "0 < ?c" using False by simp
    from threshold_exact[OF c this, of ?x] show ?thesis
      unfolding lf MAX_LOAD_FACTOR_eq float_gt.simps .
  qed
qed

lemma reshape_valid:
  assumes len: "length (table t) = unat (capacity t)" and inv: "probe_inv (table t) (capacity t)"
    and cov: "covers sched (unat (capacity t))" and c: "0 \<le> c" "c < 2 ^ 32"
    and room: "card (live_keys (table t)) \<le> nat c"
  shows "\<exists>t'. reshape t c sched = Return t' \<and> capacity t' = word_of_int c
      \<and> used_buckets t' = used_buckets t
      \<and> length (table t') = unat (capacity t') \<and> probe_inv (table t') (capacity t')
      \<and> live_keys (table t') = live_keys (table t)
      \<and> (\<forall>k. k \<noteq> KEY_INVALID \<longrightarrow>
            lookup (table t') (capacity t') k = lookup (table t) (capacity t) k)"
proof -
  let ?old = "table t" and ?oc = "capacity t"
  let ?nc = "word_of_int c :: uint32"
  let ?new = "replicate (nat c) \<lparr>key = KEY_INVALID, value = KEY_INVALID\<rparr>"
  let ?L = "\<lambda>idx new_table. kernelReshape ?old ?oc new_table ?nc idx"
  let ?A = "{i \<in> set sched. active ?old ?oc i}"
  have u: "unat ?nc = nat c" using c by (simp add: unat_eq_nat_uint uint_word_of_int take_bit_int_eq_self)
  have d: "distinct sched" and s: "\<forall>i<unat ?oc. i \<in> set sched" using cov by (simp_all add: covers_iff)
  have A: "?A = {i. i < length ?old \<and> key (?old ! i) \<noteq> KEY_INVALID}"
    using s len by (auto simp: active_def)
  have K: "(\<lambda>i. key (?old ! i)) ` ?A = live_keys ?old"
    unfolding A live_keys_nth by auto
  have cardA: "length (filter (active ?old ?oc) sched) = card (live_keys ?old)"
  proof -
    have "distinct (filter (active ?old ?oc) sched)" using d by simp
    then have "length (filter (active ?old ?oc) sched) = card (set (filter (active ?old ?oc) sched))"
      by (rule distinct_card [symmetric])
    also have "set (filter (active ?old ?oc) sched) = ?A" by auto
    also have "card ?A = card (live_keys ?old)"
    proof (cases "?oc = 0")
      case True
      then have "?old = []" using len by simp
      then show ?thesis unfolding A by (simp add: live_keys_def)
    next
      case False
      show ?thesis unfolding A using probe_inv_card[OF inv False len] by simp
    qed
    finally show ?thesis .
  qed
  have r: "reshape t c sched = obind (launch ?L sched ?new) (\<lambda>new_table. Return (t\<lparr>table := new_table, capacity := ?nc\<rparr>))"
    using c by (simp add: reshape_def Let_def cudaMemset_KEY_INVALID)
  show ?thesis
  proof (cases "?nc = 0")
    case True
    then have c0: "nat c = 0" using u by simp
    then have "live_keys ?old = {}" using room by simp
    then have "?A = {}" using K by auto
    then have "\<forall>i \<in> set sched. \<not> active ?old ?oc i" by auto
    then have l: "launch ?L sched ?new = Return ?new" by (rule launch_kernelReshape_inactive)
    have "\<forall>k. k \<noteq> KEY_INVALID \<longrightarrow> lookup [] ?nc k = lookup ?old ?oc k"
      using lookup_not_live[OF len] \<open>live_keys ?old = {}\<close> True by (simp add: lookup_def first_slot_def)
    then show ?thesis unfolding r l using c0 True \<open>live_keys ?old = {}\<close>
      by (simp add: obind_def live_keys_def probe_inv_def)
  next
    case False
    have ln: "length ?new = unat ?nc" using u by simp
    have rm: "card (live_keys ?new) + length (filter (active ?old ?oc) sched) \<le> unat ?nc"
      using room cardA u by simp
    obtain new' where n: "launch ?L sched ?new = Return new'" "length new' = unat ?nc" "probe_inv new' ?nc"
      "live_keys new' = live_keys ?new \<union> (\<lambda>i. key (?old ! i)) ` ?A"
      "\<forall>k. k \<noteq> KEY_INVALID \<longrightarrow> lookup new' ?nc k =
           (if k \<in> (\<lambda>i. key (?old ! i)) ` ?A then lookup ?old ?oc k else lookup ?new ?nc k)"
      using launch_kernelReshape_valid[OF False inv len d ln _ _ rm] by auto
    have "\<forall>k. k \<noteq> KEY_INVALID \<longrightarrow> lookup new' ?nc k = lookup ?old ?oc k"
    proof (intro allI impI)
      fix k assume k: "k \<noteq> KEY_INVALID"
      show "lookup new' ?nc k = lookup ?old ?oc k"
      proof (cases "k \<in> live_keys ?old")
        case True
        then show ?thesis using n(5) k K by simp
      next
        case F: False
        have "lookup ?new ?nc k = None" using ln by (intro lookup_not_live) (use k in simp_all)
        moreover have "lookup ?old ?oc k = None" using len F k by (rule lookup_not_live)
        ultimately show ?thesis using n(5) k K F by simp
      qed
    qed
    then show ?thesis unfolding r n(1) using n(2,3,4) K by (simp add: obind_def)
  qed
qed

lemma batch_map_take:
  "batch_map dk (take n dv) n sched m = batch_map dk dv n sched m"
  by (induction sched arbitrary: m) simp_all

lemma insertBatch_valid:
  assumes ne: "keys \<noteq> []" and lv: "length keys \<le> length values"
    and size: "unat (used_buckets t) + length keys \<le> max_projected"
    and len: "length (table t) = unat (capacity t)" and inv: "probe_inv (table t) (capacity t)"
    and used: "card (live_keys (table t)) \<le> unat (used_buckets t)"
    and covr: "covers rsched (unat (capacity t))" and cov: "covers isched (length keys)"
  shows "\<exists>t'. insertBatch t keys values rsched isched = Return (True, t')
      \<and> capacity t' = (if resize_needed t (length keys)
                        then word_of_nat (2 * f32 (unat (used_buckets t) + length keys))
                        else capacity t)
      \<and> length (table t') = unat (capacity t') \<and> probe_inv (table t') (capacity t')
      \<and> live_keys (table t') = live_keys (table t) \<union> (set keys - {KEY_INVALID})
      \<and> unat (used_buckets t') + card (live_keys (table t))
           = unat (used_buckets t) + card (live_keys (table t'))
      \<and> (\<forall>k. k \<noteq> KEY_INVALID \<longrightarrow>
            lookup (table t') (capacity t') k
              = batch_map keys values (length keys) isched (lookup (table t) (capacity t)) k)"
proof -
  let ?n = "length keys"
  let ?x = "unat (used_buckets t) + ?n"
  let ?nk = "word_of_nat ?n :: uint32"
  have nk: "unat ?nk = ?n" using size by (intro unat_of_nat_len) (simp add: max_projected_def)
  have xw: "unat (used_buckets t + ?nk) = ?x" using size by (rule projected_unat)
  have x0: "used_buckets t + ?nk \<noteq> 0" using xw ne by (metis add_is_0 length_0_conv unat_0)
  obtain t1 where t1: "(if resize_needed t ?n then reshape t (int (2 * f32 ?x)) rsched else Return t) = Return t1"
    and c1: "capacity t1 = (if resize_needed t ?n then word_of_nat (2 * f32 ?x) else capacity t)"
    and u1: "unat (capacity t1) = (if resize_needed t ?n then 2 * f32 ?x else unat (capacity t))"
    and l1: "length (table t1) = unat (capacity t1)"
    and i1: "probe_inv (table t1) (capacity t1)"
    and us1: "used_buckets t1 = used_buckets t"
    and lk1: "live_keys (table t1) = live_keys (table t)"
    and lu1: "\<forall>k. k \<noteq> KEY_INVALID \<longrightarrow> lookup (table t1) (capacity t1) k = lookup (table t) (capacity t) k"
  proof (cases "resize_needed t ?n")
    case True
    have "2 * f32 ?x < 2 ^ 32" using size by (rule target_bound(2))
    then have b1: "2 * f32 ?x < 4294967296" by simp
    then have b: "int (2 * f32 ?x) < 2 ^ 32" by simp
    have rm: "card (live_keys (table t)) \<le> nat (int (2 * f32 ?x))"
      using used f32_lower[of ?x] by simp
    obtain t1 where r: "reshape t (int (2 * f32 ?x)) rsched = Return t1"
      "capacity t1 = word_of_int (int (2 * f32 ?x))" "used_buckets t1 = used_buckets t"
      "length (table t1) = unat (capacity t1)" "probe_inv (table t1) (capacity t1)"
      "live_keys (table t1) = live_keys (table t)"
      "\<forall>k. k \<noteq> KEY_INVALID \<longrightarrow> lookup (table t1) (capacity t1) k = lookup (table t) (capacity t) k"
      using reshape_valid[OF len inv covr _ b rm] by auto
    have w: "(word_of_int (int (2 * f32 ?x)) :: uint32) = word_of_nat (2 * f32 ?x)" by simp
    have "unat (word_of_nat (2 * f32 ?x) :: uint32) = 2 * f32 ?x"
      using b1 by (intro unat_of_nat_len) simp
    then show ?thesis using True r w by (intro that[of t1]) simp_all
  next
    case False
    then show ?thesis using len inv by (intro that[of t]) simp_all
  qed
  have room: "?x \<le> unat (capacity t1)"
  proof (cases "resize_needed t ?n")
    case True
    then show ?thesis using u1 f32_lower[of ?x] by simp
  next
    case False
    then have "unat (used_buckets t + ?nk) < unat (capacity t)"
      using x0 by (intro no_resize_room) (simp add: resize_needed_def)
    then show ?thesis using False u1 xw by simp
  qed
  then have cz: "capacity t1 \<noteq> 0" using ne by (metis add_is_0 le_zero_eq length_0_conv unat_0)
  have act: "length (filter (\<lambda>i. i < unat ?nk) isched) = ?n" using covers_active_le[OF cov] nk by simp
  have rm: "card (live_keys (table t1)) + length (filter (\<lambda>i. i < unat ?nk) isched) \<le> unat (capacity t1)"
    using room used lk1 act by simp
  obtain tbl' u where r:
    "launch (kernelInsert (capacity t1) keys (take ?n values) ?nk) isched (table t1, 0) = Return (tbl', 0 + word_of_nat u)"
    "length tbl' = unat (capacity t1)" "probe_inv tbl' (capacity t1)"
    "live_keys tbl' = live_keys (table t1) \<union> ((\<lambda>i. keys ! i) ` {i \<in> set isched. i < unat ?nk} - {KEY_INVALID})"
    "card (live_keys tbl') + u = card (live_keys (table t1)) + length (filter (\<lambda>i. i < unat ?nk) isched)"
    "\<forall>k. k \<noteq> KEY_INVALID \<longrightarrow> lookup tbl' (capacity t1) k
        = batch_map keys (take ?n values) (unat ?nk) isched (lookup (table t1) (capacity t1)) k"
    using launch_kernelInsert_valid[OF cz l1 i1 rm, of keys "take ?n values" 0] by blast
  have "card (live_keys (table t1)) \<le> card (live_keys tbl')"
    unfolding r(4) by (intro card_mono) (auto simp: live_keys_def)
  then have un: "u \<le> ?n" using r(5) act by simp
  let ?t' = "t1\<lparr>table := tbl', used_buckets := used_buckets t1 + (?nk - word_of_nat u)\<rparr>"
  have res: "insertBatch t keys values rsched isched = Return (True, ?t')"
    unfolding insertBatch_unfold[OF ne lv size] t1 using r(1)
    by (simp add: obind_def)
  have "?nk - word_of_nat u = (word_of_nat (?n - u) :: uint32)" using un by (simp add: of_nat_diff)
  moreover have "unat (used_buckets t + (word_of_nat (?n - u) :: uint32)) = unat (used_buckets t) + (?n - u)"
    using size by (intro projected_unat) simp
  ultimately have usd: "unat (used_buckets ?t') = ?x - u" using us1 un by simp
  have ks: "(\<lambda>i. keys ! i) ` {i \<in> set isched. i < unat ?nk} = set keys"
  proof -
    have "{i \<in> set isched. i < unat ?nk} = {..<?n}" using cov nk by (auto simp: covers_iff)
    then show ?thesis by (auto simp: in_set_conv_nth)
  qed
  have m: "\<And>m. batch_map keys (take ?n values) (unat ?nk) isched m = batch_map keys values ?n isched m"
    using nk batch_map_take[of keys ?n "values" isched] by simp
  have lu: "\<forall>k. k \<noteq> KEY_INVALID \<longrightarrow>
            lookup (table ?t') (capacity ?t') k
              = batch_map keys values ?n isched (lookup (table t) (capacity t)) k"
  proof (intro allI impI)
    fix k assume k: "k \<noteq> KEY_INVALID"
    have "\<And>m m'. (\<forall>k. k \<noteq> KEY_INVALID \<longrightarrow> m k = m' k) \<Longrightarrow>
               (\<forall>k. k \<noteq> KEY_INVALID \<longrightarrow> batch_map keys values ?n isched m k = batch_map keys values ?n isched m' k)"
    proof (induction isched)
      case Nil
      then show ?case by simp
    next
      case (Cons j js)
      show ?case
        by (simp only: batch_map_Cons, rule Cons.IH) (use Cons.prems in \<open>auto simp: upd_def\<close>)
    qed
    from this[OF lu1] r(6) k show "lookup (table ?t') (capacity ?t') k
              = batch_map keys values ?n isched (lookup (table t) (capacity t)) k"
      by (simp add: m)
  qed
  have cd: "unat (used_buckets ?t') + card (live_keys (table t))
           = unat (used_buckets t) + card (live_keys (table ?t'))"
    using usd r(5) act lk1 un by simp
  have lk: "live_keys (table ?t') = live_keys (table t) \<union> (set keys - {KEY_INVALID})"
    using r(4) ks lk1 by simp
  show ?thesis using res c1 r(2,3) lu cd lk by (intro exI[of _ ?t']) simp
qed

section \<open>Sequences of operations\<close>

lemma covers_upt: "covers [0..<n] n"
  by (simp add: covers_def)

lemma obind_Return_iff: "obind m f = Return y \<longleftrightarrow> (\<exists>x. m = Return x \<and> f x = Return y)"
  by (cases m) (simp_all add: obind_def)

lemma getBatch_state: "getBatch t keys sched = Return (r, t') \<Longrightarrow> t' = t"
  by (auto simp: getBatch_def Let_def obind_Return_iff split: if_splits)

lemma reshape_fields:
  assumes "reshape t c sched = Return t'" "c < 2 ^ 32"
  shows "used_buckets t' = used_buckets t \<and> length (table t') = unat (capacity t')"
proof -
  have c0: "0 \<le> c" using assms(1) by (auto simp: reshape_def Let_def split: if_splits)
  let ?nc = "word_of_int c :: uint32"
  have u: "unat ?nc = nat c" using c0 assms(2) by (simp add: unat_eq_nat_uint uint_word_of_int take_bit_int_eq_self)
  obtain new' where n: "launch (\<lambda>idx new_table. kernelReshape (table t) (capacity t) new_table ?nc idx)
      (sched) (cudaMemset KEY_INVALID (nat c)) = Return new'" and t': "t' = t\<lparr>table := new', capacity := ?nc\<rparr>"
    using assms(1) c0 by (auto simp: reshape_def Let_def obind_Return_iff)
  have "length new' = nat c"
  proof (cases "?nc = 0")
    case True
    have "\<And>sched new. launch (\<lambda>idx new_table. kernelReshape (table t) (capacity t) new_table 0 idx) sched new = Return new' \<Longrightarrow> new' = new"
    proof -
      fix sched new
      show "launch (\<lambda>idx new_table. kernelReshape (table t) (capacity t) new_table 0 idx) sched new = Return new' \<Longrightarrow> new' = new"
      proof (induction sched arbitrary: new)
        case Nil
        then show ?case by simp
      next
        case (Cons i sched)
        then show ?case by (auto simp: obind_Return_iff kernelReshape_def split: if_splits)
      qed
    qed
    from this[of sched "cudaMemset KEY_INVALID (nat c)"] n True show ?thesis
      by (simp add: cudaMemset_def)
  next
    case False
    have "length (cudaMemset KEY_INVALID (nat c)) = unat ?nc" using u by (simp add: cudaMemset_def)
    from launch_kernelReshape_returns[OF False this, of "table t" "capacity t" sched] n u
    show ?thesis by simp
  qed
  then show ?thesis using t' u by simp
qed

section \<open>Zero-length batches\<close>

text \<open>
  Claim C6. A batch of length zero is signalled and changes nothing: \<^verbatim>\<open>insertBatch\<close> returns
  \<^verbatim>\<open>false\<close> and \<^verbatim>\<open>getBatch\<close> returns the null pointer, the table object being the one the
  call started with. \<^verbatim>\<open>insertBatch\<close> returns \<^verbatim>\<open>false\<close> in no other case: whenever it returns,
  its result is \<^verbatim>\<open>true\<close> exactly when the batch is not empty, and it does return \<^verbatim>\<open>true\<close> for
  every batch that is not empty and whose projected count stays in the range where the
  conversion to \<^verbatim>\<open>int\<close> is defined.
\<close>

theorem zero_length_batch:
  assumes "keys \<noteq> []" "length values = length keys"
    and "unat (used_buckets t) + length keys \<le> max_projected"
    and "length (table t) = unat (capacity t)" "covers isched (length keys)"
    and "insertBatch t ks vs rs is = Return (b, t'')"
  shows "insertBatch t [] vs rs is = Return (False, t)
       \<and> getBatch t [] gs = Return (NULL, t)
       \<and> b = (ks \<noteq> [])
       \<and> (\<exists>t'. insertBatch t keys values rsched isched = Return (True, t'))"
proof -
  have lv: "length keys \<le> length values" using assms(2) by simp
  obtain t' where "insertBatch t keys values rsched isched = Return (True, t')"
    using insertBatch_shape[OF assms(1) lv assms(3,4,5), where rsched = rsched] by blast
  moreover have "b = (ks \<noteq> [])"
    using assms(6) by (auto simp: insertBatch_def Let_def obind_Return_iff split: if_splits option.splits)
  ultimately show ?thesis by (auto simp: insertBatch_def getBatch_def)
qed

theorem zero_length_batch_witness:
  "[1, 2, 3] \<noteq> ([] :: uint32 list) \<and> length [10, 20, 30 :: uint32] = length [1, 2, 3 :: uint32]
   \<and> unat (used_buckets (empty_table 8)) + length [1, 2, 3 :: uint32] \<le> max_projected
   \<and> length (table (empty_table 8)) = unat (capacity (empty_table 8)) \<and> covers [0, 1, 2] (length [1, 2, 3 :: uint32])
   \<and> insertBatch (empty_table 8) [] [] [] [] = Return (False, empty_table 8)
   \<and> getBatch (empty_table 8) [] [] = Return (NULL, empty_table 8)
   \<and> False = (([] :: uint32 list) \<noteq> [])
   \<and> (\<exists>t'. insertBatch (empty_table 8) [1, 2, 3] [10, 20, 30] [] [0, 1, 2] = Return (True, t'))"
proof -
  have h1: "[1, 2, 3] \<noteq> ([] :: uint32 list)" by simp
  have h2: "length [10, 20, 30 :: uint32] = length [1, 2, 3 :: uint32]" by simp
  have h3: "unat (used_buckets (empty_table 8)) + length [1, 2, 3 :: uint32] \<le> max_projected"
    by (simp add: empty_table_def max_projected_def)
  have h4: "length (table (empty_table 8)) = unat (capacity (empty_table 8))"
    by (simp add: empty_table_def cudaMemset_def)
  have h5: "covers [0, 1, 2] (length [1, 2, 3 :: uint32])" by (simp add: covers_def)
  have h6: "insertBatch (empty_table 8) [] [] [] [] = Return (False, empty_table 8)"
    by (simp add: insertBatch_def)
  from zero_length_batch[OF h1 h2 h3 h4 h5 h6, of "[]" "[]"] h1 h2 h3 h4 h5
  show ?thesis by simp
qed

lemma length_iota [simp]: "length (iota n) = n"
  by (simp add: iota_def)

lemma iota_nth: "i < n \<Longrightarrow> iota n ! i = word_of_nat i"
  by (simp add: iota_def)

lemma distinct_iota: "n \<le> 2 ^ 32 \<Longrightarrow> distinct (iota n)"
proof -
  assume n: "n \<le> 2 ^ 32"
  have "inj_on (word_of_nat :: nat \<Rightarrow> uint32) {0..<n}"
  proof (rule inj_onI)
    fix x y assume a: "x \<in> {0..<n}" "y \<in> {0..<n}" "(word_of_nat x :: uint32) = word_of_nat y"
    then have "unat (word_of_nat x :: uint32) = unat (word_of_nat y :: uint32)" by simp
    moreover have "x < 2 ^ 32" "y < 2 ^ 32" using a n by auto
    ultimately show "x = y" by (simp add: unat_of_nat_len)
  qed
  then show ?thesis by (simp add: iota_def distinct_map)
qed

lemma iota_no_sentinel: "n < 2 ^ 32 \<Longrightarrow> KEY_INVALID \<notin> set (iota n)"
proof
  assume n: "n < 2 ^ 32" and "KEY_INVALID \<in> set (iota n)"
  then obtain i where i: "i < n" "(word_of_nat i :: uint32) = KEY_INVALID" by (auto simp: iota_def)
  then have "unat (word_of_nat i :: uint32) = unat KEY_INVALID" by simp
  moreover have "unat (word_of_nat i :: uint32) = i" using i(1) n by (intro unat_of_nat_len) simp
  moreover have k: "KEY_INVALID = 4294967295" by (simp add: KEY_INVALID_def)
  have "unat KEY_INVALID = 4294967295" unfolding k by simp
  ultimately show False using i(1) n by simp
qed

section \<open>The resize decision\<close>

text \<open>
  Claim C3, as amended. For an \<^verbatim>\<open>insertBatch\<close> of \<open>n > 0\<close> items, the table is resized exactly
  when the single precision quotient \<^verbatim>\<open>(float) (used + n) / (float) capacity\<close> is greater
  than \<^verbatim>\<open>0.8f\<close>, and the new capacity is then twice \<^verbatim>\<open>(float) (used + n)\<close>; otherwise the
  capacity is unchanged. Twice \<^verbatim>\<open>(float) (used + n)\<close> is twice the projected count as long as
  that count is below \<open>2\<^sup>2\<^sup>4\<close>, and the test agrees with \<open>(used + n) / capacity > 0.8\<close>
  computed exactly as long as, in addition, the capacity is at most 4793490.
\<close>

theorem insertBatch_resize_decision:
  assumes "keys \<noteq> []" "length values = length keys"
    and "unat (used_buckets t) + length keys \<le> max_projected"
    and "length (table t) = unat (capacity t)" "covers isched (length keys)"
  shows "\<exists>t'. insertBatch t keys values rsched isched = Return (True, t')
      \<and> capacity t' = (if resize_needed t (length keys)
                        then word_of_nat (2 * f32 (unat (used_buckets t) + length keys))
                        else capacity t)
      \<and> unat (capacity t') = (if resize_needed t (length keys)
                        then 2 * f32 (unat (used_buckets t) + length keys)
                        else unat (capacity t))
      \<and> (unat (used_buckets t) + length keys < 2 ^ 24 \<longrightarrow>
            f32 (unat (used_buckets t) + length keys) = unat (used_buckets t) + length keys)
      \<and> (unat (used_buckets t) + length keys < 2 ^ 24 \<and> unat (capacity t) \<le> 4793490 \<longrightarrow>
            resize_needed t (length keys)
              = (4 * unat (capacity t) < 5 * (unat (used_buckets t) + length keys)))"
proof -
  obtain t' where t': "insertBatch t keys values rsched isched = Return (True, t')"
    "capacity t' = (if resize_needed t (length keys)
                        then word_of_nat (2 * f32 (unat (used_buckets t) + length keys))
                        else capacity t)"
    "unat (capacity t') = (if resize_needed t (length keys)
                        then 2 * f32 (unat (used_buckets t) + length keys)
                        else unat (capacity t))"
    using insertBatch_shape[OF assms(1) _ assms(3,4,5), of "values" rsched] assms(2) by auto
  have "unat (used_buckets t) + length keys < 2 ^ 24 \<and> unat (capacity t) \<le> 4793490 \<longrightarrow>
            resize_needed t (length keys)
              = (4 * unat (capacity t) < 5 * (unat (used_buckets t) + length keys))"
  proof
    assume a: "unat (used_buckets t) + length keys < 2 ^ 24 \<and> unat (capacity t) \<le> 4793490"
    have x: "unat (used_buckets t + word_of_nat (length keys) :: uint32) = unat (used_buckets t) + length keys"
      using assms(3) by (rule projected_unat)
    show "resize_needed t (length keys)
              = (4 * unat (capacity t) < 5 * (unat (used_buckets t) + length keys))"
      unfolding resize_needed_def using resize_exact[of "used_buckets t + word_of_nat (length keys)" "capacity t"] a x
      by simp
  qed
  then show ?thesis using t' f32_small by blast
qed

theorem insertBatch_resize_decision_witness:
  "[1, 2, 3, 4, 5, 6, 7, 8, 9] \<noteq> ([] :: uint32 list) 
   \<and> length [1, 2, 3, 4, 5, 6, 7, 8, 9 :: uint32] = length [1, 2, 3, 4, 5, 6, 7, 8, 9 :: uint32]
   \<and> unat (used_buckets (empty_table 10)) + length [1, 2, 3, 4, 5, 6, 7, 8, 9 :: uint32] \<le> max_projected
   \<and> length (table (empty_table 10)) = unat (capacity (empty_table 10))
   \<and> covers [0..<9] (length [1, 2, 3, 4, 5, 6, 7, 8, 9 :: uint32])
   \<and> unat (used_buckets (empty_table 10)) + length [1, 2, 3, 4, 5, 6, 7, 8, 9 :: uint32] < 2 ^ 24
   \<and> unat (capacity (empty_table 10)) \<le> 4793490
   \<and> resize_needed (empty_table 10) 9
   \<and> (\<exists>t'. insertBatch (empty_table 10) [1, 2, 3, 4, 5, 6, 7, 8, 9] [1, 2, 3, 4, 5, 6, 7, 8, 9] [0..<10] [0..<9]
              = Return (True, t') \<and> unat (capacity t') = 18)"
proof -
  let ?ks = "[1, 2, 3, 4, 5, 6, 7, 8, 9] :: uint32 list"
  have h1: "?ks \<noteq> []" by simp
  have h2: "length ?ks = length ?ks" by simp
  have h3: "unat (used_buckets (empty_table 10)) + length ?ks \<le> max_projected"
    by (simp add: empty_table_def max_projected_def)
  have h4: "length (table (empty_table 10)) = unat (capacity (empty_table 10))"
    by (simp add: empty_table_def cudaMemset_def)
  have h5: "covers [0..<9] (length ?ks)" by (simp add: covers_def)
  have h6: "unat (used_buckets (empty_table 10)) + length ?ks < 2 ^ 24" by (simp add: empty_table_def)
  have h7: "unat (capacity (empty_table 10)) \<le> 4793490" by (simp add: empty_table_def)
  have l: "length ?ks = 9" by simp
  have "float_gt (loadFactor 9 10) MAX_LOAD_FACTOR" by code_simp
  then have r: "resize_needed (empty_table 10) 9"
    by (simp add: resize_needed_def empty_table_def)
  have f: "f32 9 = 9" by (rule f32_small) simp
  have u: "unat (used_buckets (empty_table 10)) = 0" by (simp add: empty_table_def)
  obtain t' where "insertBatch (empty_table 10) ?ks ?ks [0..<10] [0..<9] = Return (True, t')"
    "unat (capacity t') = (if resize_needed (empty_table 10) (length ?ks)
                        then 2 * f32 (unat (used_buckets (empty_table 10)) + length ?ks)
                        else unat (capacity (empty_table 10)))"
    using insertBatch_resize_decision[OF h1 h2 h3 h4 h5, of "[0..<10]"] by blast
  then have "\<exists>t'. insertBatch (empty_table 10) ?ks ?ks [0..<10] [0..<9] = Return (True, t') \<and> unat (capacity t') = 18"
    unfolding l u using r f by (intro exI[of _ t']) simp
  then show ?thesis using h1 h3 h4 h5 h6 h7 r by simp
qed

text \<open>
  Claim C3 as it was stated fails where \<^verbatim>\<open>float\<close> cannot hold the projected count: for
  16777217 keys inserted into a fresh table of capacity 1 the new capacity is 33554432,
  not twice the projected count, 33554434.
\<close>

theorem insertBatch_resize_decision_counterexample:
  "map_outcome (\<lambda>r. unat (capacity (snd r)))
     (insertBatch (empty_table 1) (iota 16777217) (iota 16777217) [0] [0..<16777217])
     = Return 33554432
   \<and> 4 * unat (capacity (empty_table 1)) < 5 * (unat (used_buckets (empty_table 1)) + length (iota 16777217))
   \<and> 2 * (unat (used_buckets (empty_table 1)) + length (iota 16777217)) = 33554434"
proof -
  have h1: "iota 16777217 \<noteq> []" using length_iota[of 16777217] by fastforce
  have h3: "unat (used_buckets (empty_table 1)) + length (iota 16777217) \<le> max_projected"
    by (simp add: empty_table_def max_projected_def)
  have h4: "length (table (empty_table 1)) = unat (capacity (empty_table 1))"
    by (simp add: empty_table_def cudaMemset_def)
  have h5: "covers [0..<16777217] (length (iota 16777217))" using covers_upt[of 16777217] by simp
  have "round32 16777217 = 16777216" by code_simp
  then have "round32 (of_nat 16777217) = 16777216" by simp
  then have f: "f32 16777217 = 16777216" by (simp add: f32_def)
  have f1: "f32 1 = 1" by (rule f32_small) simp
  have "loadFactor 16777217 1 = Finite (round32 (of_nat 16777216 / of_nat 1))"
    unfolding loadFactor_nat using f f1 by simp
  moreover have "round32 16777216 = 16777216" by code_simp
  ultimately have "float_gt (loadFactor 16777217 1) MAX_LOAD_FACTOR" by (simp add: MAX_LOAD_FACTOR_eq)
  then have r: "resize_needed (empty_table 1) 16777217"
    by (simp add: resize_needed_def empty_table_def)
  obtain t' where "insertBatch (empty_table 1) (iota 16777217) (iota 16777217) [0] [0..<16777217] = Return (True, t')"
    "unat (capacity t') = 2 * f32 (unat (used_buckets (empty_table 1)) + 16777217)"
    using insertBatch_shape[OF h1 _ h3 h4 h5, of "iota 16777217" "[0]"] r by auto
  then show ?thesis using f by (simp add: empty_table_def)
qed

lemma float_le_not_gt: "float_le a b \<Longrightarrow> \<not> float_gt a b"
  by (cases a; cases b) auto

section \<open>The load factor ceiling\<close>

text \<open>
  Claim C2, as amended. When \<^verbatim>\<open>insertBatch\<close> returns, \<^verbatim>\<open>loadFactor(used, capacity)\<close> is at most
  \<^verbatim>\<open>MAX_LOAD_FACTOR\<close> in single precision, the decision to resize having been taken on the
  projected count \<open>used + n\<close>; computed exactly, \<open>used / capacity \<le> 0.8\<close> holds whenever the
  capacity is at most 4793490.
\<close>

theorem load_factor_ceiling:
  assumes "keys \<noteq> []" "length values = length keys"
    and "unat (used_buckets t) + length keys \<le> max_projected"
    and "length (table t) = unat (capacity t)" "covers isched (length keys)"
  shows "\<exists>t'. insertBatch t keys values rsched isched = Return (True, t')
      \<and> capacity t' = (if resize_needed t (length keys)
                        then word_of_nat (2 * f32 (unat (used_buckets t) + length keys))
                        else capacity t)
      \<and> float_le (loadFactor (used_buckets t') (capacity t')) MAX_LOAD_FACTOR
      \<and> (unat (capacity t') \<le> 4793490 \<longrightarrow>
            5 * unat (used_buckets t') \<le> 4 * unat (capacity t'))"
proof -
  let ?n = "length keys"
  let ?x = "unat (used_buckets t) + ?n"
  let ?xw = "used_buckets t + word_of_nat ?n :: uint32"
  have lv: "length keys \<le> length values" using assms(2) by simp
  obtain t' u where t': "insertBatch t keys values rsched isched = Return (True, t')"
    "u \<le> ?n" "unat (used_buckets t') = ?x - u"
    "capacity t' = (if resize_needed t ?n then word_of_nat (2 * f32 ?x) else capacity t)"
    "unat (capacity t') = (if resize_needed t ?n then 2 * f32 ?x else unat (capacity t))"
    "?x \<le> unat (capacity t')"
    using insertBatch_shape[OF assms(1) lv assms(3,4,5), where rsched = rsched] by blast
  have xw: "unat ?xw = ?x" using assms(3) by (rule projected_unat)
  have x0: "?xw \<noteq> 0" using xw assms(1) by (metis add_is_0 length_0_conv unat_0)
  have le: "unat (used_buckets t') \<le> unat ?xw" using t'(3) xw by simp
  have fl: "float_le (loadFactor (used_buckets t') (capacity t')) MAX_LOAD_FACTOR"
  proof (cases "resize_needed t ?n")
    case True
    then have "unat (capacity t') = 2 * f32 (unat ?xw)" using t'(5) xw by simp
    then show ?thesis using x0 le by (rule load_ok_resize)
  next
    case False
    then have "capacity t' = capacity t" using t'(4) by simp
    moreover have "\<not> float_gt (loadFactor ?xw (capacity t)) MAX_LOAD_FACTOR"
      using False by (simp add: resize_needed_def)
    ultimately show ?thesis using load_ok_no_resize[OF _ x0 le] by simp
  qed
  have ex: "unat (capacity t') \<le> 4793490 \<longrightarrow> 5 * unat (used_buckets t') \<le> 4 * unat (capacity t')"
  proof
    assume c: "unat (capacity t') \<le> 4793490"
    then have "unat (used_buckets t') < 2 ^ 24" using t'(3,6) by simp
    from resize_exact[OF this c] float_le_not_gt[OF fl]
    show "5 * unat (used_buckets t') \<le> 4 * unat (capacity t')" by simp
  qed
  show ?thesis using t'(1,4) fl ex by blast
qed

theorem load_factor_ceiling_witness:
  "[1, 2, 3] \<noteq> ([] :: uint32 list) \<and> length [10, 20, 30 :: uint32] = length [1, 2, 3 :: uint32]
   \<and> unat (used_buckets (empty_table 8)) + length [1, 2, 3 :: uint32] \<le> max_projected
   \<and> length (table (empty_table 8)) = unat (capacity (empty_table 8))
   \<and> covers [0, 1, 2] (length [1, 2, 3 :: uint32])
   \<and> (\<exists>t'. insertBatch (empty_table 8) [1, 2, 3] [10, 20, 30] [0..<8] [0, 1, 2] = Return (True, t')
        \<and> unat (capacity t') \<le> 4793490
        \<and> float_le (loadFactor (used_buckets t') (capacity t')) MAX_LOAD_FACTOR
        \<and> 5 * unat (used_buckets t') \<le> 4 * unat (capacity t'))"
proof -
  let ?ks = "[1, 2, 3] :: uint32 list"
  have h1: "?ks \<noteq> []" by simp
  have h2: "length [10, 20, 30 :: uint32] = length ?ks" by simp
  have h3: "unat (used_buckets (empty_table 8)) + length ?ks \<le> max_projected"
    by (simp add: empty_table_def max_projected_def)
  have h4: "length (table (empty_table 8)) = unat (capacity (empty_table 8))"
    by (simp add: empty_table_def cudaMemset_def)
  have h5: "covers [0, 1, 2] (length ?ks)" by (simp add: covers_def)
  have l: "length ?ks = 3" by simp
  have "\<not> float_gt (loadFactor 3 8) MAX_LOAD_FACTOR" by code_simp
  then have r: "\<not> resize_needed (empty_table 8) 3"
    by (simp add: resize_needed_def empty_table_def)
  obtain t' where t': "insertBatch (empty_table 8) ?ks [10, 20, 30] [0..<8] [0, 1, 2] = Return (True, t')"
    "capacity t' = (if resize_needed (empty_table 8) (length ?ks)
                        then word_of_nat (2 * f32 (unat (used_buckets (empty_table 8)) + length ?ks))
                        else capacity (empty_table 8))"
    "float_le (loadFactor (used_buckets t') (capacity t')) MAX_LOAD_FACTOR"
    "unat (capacity t') \<le> 4793490 \<longrightarrow> 5 * unat (used_buckets t') \<le> 4 * unat (capacity t')"
    using load_factor_ceiling[OF h1 h2 h3 h4 h5, of "[0..<8]"] by blast
  have c: "unat (capacity t') \<le> 4793490" using t'(2) r unfolding l by (simp add: empty_table_def)
  then have "\<exists>t'. insertBatch (empty_table 8) ?ks [10, 20, 30] [0..<8] [0, 1, 2] = Return (True, t')
        \<and> unat (capacity t') \<le> 4793490
        \<and> float_le (loadFactor (used_buckets t') (capacity t')) MAX_LOAD_FACTOR
        \<and> 5 * unat (used_buckets t') \<le> 4 * unat (capacity t')"
    using t' by (intro exI[of _ t']) simp
  then show ?thesis using h1 h3 h4 h5 by simp
qed

lemma table_inv_empty_table:
  assumes "n < 2 ^ 32"
  shows "length (table (empty_table n)) = unat (capacity (empty_table n))"
    "probe_inv (table (empty_table n)) (capacity (empty_table n))"
    "live_keys (table (empty_table n)) = {}"
    "unat (used_buckets (empty_table n)) = 0" "unat (capacity (empty_table n)) = n"
  using assms by (simp_all add: empty_table_def cudaMemset_KEY_INVALID unat_of_nat_len)

text \<open>
  Claim C2 as it was stated fails for larger tables, where the ceiling computed exactly is
  exceeded: 8000001 fresh keys in a
  fresh table of capacity 10000001 are inserted with no resize, because the quotient
  rounds to \<^verbatim>\<open>0.8f\<close>, and leave \<open>used / capacity = 8000001 / 10000001 > 0.8\<close>.
\<close>

theorem load_factor_ceiling_counterexample:
  "map_outcome (\<lambda>r. (unat (used_buckets (snd r)), unat (capacity (snd r))))
     (insertBatch (empty_table 10000001) (iota 8000001) (iota 8000001) [0..<10000001] [0..<8000001])
     = Return (8000001, 10000001)
   \<and> (4::nat) * 10000001 < 5 * 8000001"
proof -
  let ?t = "empty_table 10000001"
  let ?ks = "iota 8000001"
  have h1: "?ks \<noteq> []" using length_iota[of 8000001] by fastforce
  have ti: "length (table ?t) = unat (capacity ?t)" "probe_inv (table ?t) (capacity ?t)"
    "live_keys (table ?t) = {}" "unat (used_buckets ?t) = 0" "unat (capacity ?t) = 10000001"
    by (rule table_inv_empty_table, simp)+
  have h3: "unat (used_buckets ?t) + length ?ks \<le> max_projected"
    using ti(4) by (simp add: max_projected_def)
  have h6: "card (live_keys (table ?t)) \<le> unat (used_buckets ?t)" using ti(3) by simp
  have h7: "covers [0..<10000001] (unat (capacity ?t))" unfolding ti(5) by (rule covers_upt)
  have h8: "covers [0..<8000001] (length ?ks)" using covers_upt[of 8000001] by simp
  have fx: "f32 8000001 = 8000001" by (rule f32_small) simp
  have fc: "f32 10000001 = 10000001" by (rule f32_small) simp
  have "round32 (8000001 / 10000001) = 13421773 / 16777216" by code_simp
  then have "loadFactor 8000001 10000001 = Finite (13421773 / 16777216)"
    unfolding loadFactor_nat using fx fc by simp
  then have "\<not> float_gt (loadFactor 8000001 10000001) MAX_LOAD_FACTOR" by (simp add: MAX_LOAD_FACTOR_eq)
  then have r: "\<not> resize_needed ?t 8000001"
    by (simp add: resize_needed_def empty_table_def)
  obtain t' where t': "insertBatch ?t ?ks ?ks [0..<10000001] [0..<8000001] = Return (True, t')"
    "capacity t' = (if resize_needed ?t (length ?ks)
                        then word_of_nat (2 * f32 (unat (used_buckets ?t) + length ?ks))
                        else capacity ?t)"
    "live_keys (table t') = live_keys (table ?t) \<union> (set ?ks - {KEY_INVALID})"
    "unat (used_buckets t') + card (live_keys (table ?t))
           = unat (used_buckets ?t) + card (live_keys (table t'))"
    using insertBatch_valid[OF h1 order_refl h3 ti(1,2) h6 h7 h8] by blast
  have "KEY_INVALID \<notin> set ?ks" by (rule iota_no_sentinel) simp
  then have "live_keys (table t') = set ?ks" using t'(3) ti(3) by simp
  moreover have "card (set ?ks) = 8000001" using distinct_card[OF distinct_iota[of 8000001]] by simp
  ultimately have "unat (used_buckets t') = 8000001" using t'(4) ti(3,4) by simp
  moreover have "unat (capacity t') = 10000001" using t'(2) r ti(5) by simp
  ultimately show ?thesis using t'(1) by simp
qed

lemma total_keys_Cons [simp]: "total_keys (x # ops) = batch_size x + total_keys ops"
  by (simp add: total_keys_def)

lemma total_keys_Nil [simp]: "total_keys [] = 0"
  by (simp add: total_keys_def)

lemma insertBatch_Return_lengths:
  "insertBatch t keys values rsched isched = Return r \<Longrightarrow> keys \<noteq> [] \<Longrightarrow> length keys \<le> length values"
  by (auto simp: insertBatch_def Let_def split: if_splits)

lemma run_used:
  assumes sch: "\<forall>n. covers (sch n) n"
  shows "length (table t) = unat (capacity t) \<Longrightarrow>
     unat (used_buckets t) + total_keys ops \<le> max_projected \<Longrightarrow>
     list_all in_int_range ops \<Longrightarrow> run sch ops t = Return t' \<Longrightarrow>
     \<exists>u\<le>total_keys ops. unat (used_buckets t') = unat (used_buckets t) + total_keys ops - u"
proof (induction ops arbitrary: t)
  case Nil
  then show ?case by simp
next
  case (Cons x ops)
  obtain t1 where p: "perform sch x t = Return t1" and r: "run sch ops t1 = Return t'"
    using Cons.prems(4) by (auto simp: obind_Return_iff)
  have "\<exists>u1\<le>batch_size x. unat (used_buckets t1) = unat (used_buckets t) + batch_size x - u1
          \<and> length (table t1) = unat (capacity t1)"
  proof (cases x)
    case (InsertBatch keys vals)
    obtain b where ib: "insertBatch t keys vals (sch (unat (capacity t))) (sch (length keys)) = Return (b, t1)"
      using p InsertBatch by (auto simp: obind_Return_iff)
    show ?thesis
    proof (cases "keys = []")
      case True
      then have "t1 = t" using ib by (simp add: insertBatch_def)
      then show ?thesis using True InsertBatch Cons.prems(1) by simp
    next
      case False
      have lv: "length keys \<le> length vals" using ib False by (rule insertBatch_Return_lengths)
      have sz: "unat (used_buckets t) + length keys \<le> max_projected"
        using Cons.prems(2) InsertBatch by simp
      have cv: "covers (sch (length keys)) (length keys)" using sch by simp
      obtain t2 u where "insertBatch t keys vals (sch (unat (capacity t))) (sch (length keys)) = Return (True, t2)"
        "u \<le> length keys" "unat (used_buckets t2) = unat (used_buckets t) + length keys - u"
        "length (table t2) = unat (capacity t2)"
        using insertBatch_shape[OF False lv sz Cons.prems(1) cv, where rsched = "sch (unat (capacity t))"]
        by blast
      then show ?thesis using ib InsertBatch by auto
    qed
  next
    case (GetBatch keys)
    then obtain r where "getBatch t keys (sch (length keys)) = Return (r, t1)"
      using p by (auto simp: obind_Return_iff)
    then have "t1 = t" by (rule getBatch_state)
    then show ?thesis using GetBatch Cons.prems(1) by simp
  next
    case (Reshape c)
    then have "reshape t c (sch (unat (capacity t))) = Return t1" "c < 2 ^ 32"
      using p Cons.prems(3) by simp_all
    then show ?thesis using reshape_fields Reshape by simp
  qed
  then obtain u1 where u1: "u1 \<le> batch_size x"
    "unat (used_buckets t1) = unat (used_buckets t) + batch_size x - u1"
    "length (table t1) = unat (capacity t1)" by blast
  have "unat (used_buckets t1) + total_keys ops \<le> max_projected" using Cons.prems(2) u1 by simp
  moreover have "list_all in_int_range ops" using Cons.prems(3) by simp
  ultimately obtain u2 where u2: "u2 \<le> total_keys ops"
    "unat (used_buckets t') = unat (used_buckets t1) + total_keys ops - u2"
    using Cons.IH[OF u1(3) _ _ r] by blast
  show ?case using u1 u2 by (intro exI[of _ "u1 + u2"]) simp
qed

section \<open>Termination of the lookup\<close>

text \<open>
  Claim C8, as amended. The probe scan of a \<^verbatim>\<open>kernelGet\<close> worker terminates exactly when the
  key it looks for is stored in the table: it then writes the value of a slot holding that
  key to the output, the slot being the key's own in a table that satisfies the probing
  invariant; when no slot holds the key the scan never ends, empty slots or not.
\<close>

theorem kernelGet_terminates_iff_present:
  assumes "cap \<noteq> 0" "idx < unat numKeys"
  shows "((\<exists>i<unat cap. key (tbl ! i) = device_keys ! idx) \<longrightarrow>
            (\<exists>i<unat cap. key (tbl ! i) = device_keys ! idx \<and>
               kernelGet tbl cap device_keys numKeys idx device_values
                 = Return (device_values[idx := Some (value (tbl ! i))])))
       \<and> ((\<forall>i<unat cap. key (tbl ! i) \<noteq> device_keys ! idx) \<longrightarrow>
            kernelGet tbl cap device_keys numKeys idx device_values = Hang)
       \<and> (probe_inv tbl cap \<and> length tbl = unat cap \<and> j < unat cap
            \<and> key (tbl ! j) = device_keys ! idx \<and> device_keys ! idx \<noteq> KEY_INVALID \<longrightarrow>
            kernelGet tbl cap device_keys numKeys idx device_values
              = Return (device_values[idx := Some (value (tbl ! j))]))"
proof -
  let ?k = "device_keys ! idx"
  note th = kernelGet_thread[OF assms(1), of tbl device_keys numKeys idx device_values]
  have 1: "(\<exists>i<unat cap. key (tbl ! i) = ?k) \<longrightarrow>
            (\<exists>i<unat cap. key (tbl ! i) = ?k \<and>
               kernelGet tbl cap device_keys numKeys idx device_values
                 = Return (device_values[idx := Some (value (tbl ! i))]))"
  proof
    assume "\<exists>i<unat cap. key (tbl ! i) = ?k"
    then have "first_slot (has_key tbl ?k) cap ?k \<noteq> None"
      using first_slot_None[OF assms(1), of "has_key tbl ?k" ?k] by (auto simp: has_key_def)
    then obtain i0 where f: "first_slot (has_key tbl ?k) cap ?k = Some i0" by auto
    then have "i0 < unat cap" "key (tbl ! i0) = ?k"
      using assms(1) by (simp_all add: first_slot_Some is_first_def has_key_def)
    moreover have "kernelGet tbl cap device_keys numKeys idx device_values
                 = Return (device_values[idx := Some (value (tbl ! i0))])"
      using th f assms(2) by (simp add: lookup_def)
    ultimately show "\<exists>i<unat cap. key (tbl ! i) = ?k \<and>
               kernelGet tbl cap device_keys numKeys idx device_values
                 = Return (device_values[idx := Some (value (tbl ! i))])" by blast
  qed
  have 2: "(\<forall>i<unat cap. key (tbl ! i) \<noteq> ?k) \<longrightarrow>
            kernelGet tbl cap device_keys numKeys idx device_values = Hang"
  proof
    assume "\<forall>i<unat cap. key (tbl ! i) \<noteq> ?k"
    then have "first_slot (has_key tbl ?k) cap ?k = None"
      using first_slot_None[OF assms(1), of "has_key tbl ?k" ?k] by (simp add: has_key_def)
    then show "kernelGet tbl cap device_keys numKeys idx device_values = Hang"
      using th assms(2) by (simp add: lookup_def)
  qed
  have 3: "probe_inv tbl cap \<and> length tbl = unat cap \<and> j < unat cap
            \<and> key (tbl ! j) = ?k \<and> ?k \<noteq> KEY_INVALID \<longrightarrow>
            kernelGet tbl cap device_keys numKeys idx device_values
              = Return (device_values[idx := Some (value (tbl ! j))])"
  proof
    assume a: "probe_inv tbl cap \<and> length tbl = unat cap \<and> j < unat cap
            \<and> key (tbl ! j) = ?k \<and> ?k \<noteq> KEY_INVALID"
    then have "lookup tbl cap ?k = Some (value (tbl ! j))"
      using assms(1) by (intro lookup_present) simp_all
    then show "kernelGet tbl cap device_keys numKeys idx device_values
              = Return (device_values[idx := Some (value (tbl ! j))])"
      using th assms(2) by simp
  qed
  show ?thesis using 1 2 3 by blast
qed

theorem kernelGet_terminates_iff_present_witness:
  "(1 :: uint32) \<noteq> 0 \<and> 0 < unat (1 :: uint32)
   \<and> (\<exists>i<unat (1 :: uint32). key ([\<lparr>key = 5, value = 50\<rparr>] ! i) = [5] ! 0)
   \<and> kernelGet [\<lparr>key = 5, value = 50\<rparr>] 1 [5] 1 0 [None] = Return [Some 50]
   \<and> (\<exists>i<unat (1 :: uint32). key ([\<lparr>key = 5, value = 50\<rparr>] ! i) \<noteq> [7] ! 0)
   \<and> kernelGet [\<lparr>key = 5, value = 50\<rparr>] 1 [7] 1 0 [None] = Hang"
proof -
  have a: "kernelGet [\<lparr>key = 5, value = 50\<rparr>] 1 [5] 1 0 [None] = Return [Some 50]"
    using kernelGet_terminates_iff_present[of 1 0 1 "[\<lparr>key = 5, value = 50\<rparr>]" "[5]" "[None]"]
    by simp
  have b: "kernelGet [\<lparr>key = 5, value = 50\<rparr>] 1 [7] 1 0 [None] = Hang"
    using kernelGet_terminates_iff_present[of 1 0 1 "[\<lparr>key = 5, value = 50\<rparr>]" "[7]" "[None]"]
    by simp
  show ?thesis using a b by simp
qed

text \<open>
  Claim C8 as it was stated fails on the empty slots: in a fresh table of capacity 8 every
  slot is empty, the home bucket of key 5 included, and the lookup of key 5 does not
  terminate. The loop of \<^verbatim>\<open>kernelGet\<close> compares the slot's key with the key looked for and
  with nothing else.
\<close>

theorem kernelGet_terminates_iff_present_counterexample:
  "getBatch (empty_table 8) [5] [0] = Hang
   \<and> key (table (empty_table 8) ! unat (hashFunc 5 mod capacity (empty_table 8))) = KEY_INVALID
   \<and> kernelGet (table (empty_table 8)) (capacity (empty_table 8)) [5] 1 0 [None] = Hang"
proof -
  let ?t = "empty_table 8"
  have ti: "length (table ?t) = unat (capacity ?t)" "live_keys (table ?t) = {}" "unat (capacity ?t) = 8"
    by (rule table_inv_empty_table, simp)+
  have c: "capacity ?t \<noteq> 0" using ti(3) by auto
  have k: "(5 :: uint32) \<noteq> KEY_INVALID" by (simp add: KEY_INVALID_def)
  have l: "lookup (table ?t) (capacity ?t) 5 = None"
    using ti(1) _ k by (rule lookup_not_live) (simp add: ti(2))
  have 1: "getBatch ?t [5] [0] = Hang"
    using c by (rule getBatch_absent) (simp_all add: covers_def l)
  have "unat (hashFunc 5 mod capacity ?t) < 8" using home_lt[OF c, of 5] ti(3) by (simp add: home_def)
  then have 2: "key (table ?t ! unat (hashFunc 5 mod capacity ?t)) = KEY_INVALID"
    by (simp add: empty_table_def cudaMemset_KEY_INVALID)
  have 3: "kernelGet (table ?t) (capacity ?t) [5] 1 0 [None] = Hang"
    using kernelGet_thread[OF c, of "table ?t" "[5]" 1 0 "[None]"] l by simp
  show ?thesis using 1 2 3 by simp
qed

section \<open>Reshape preserves the entries\<close>

text \<open>
  Claim C5. For a table in a state the operations maintain (as many slots as \<^verbatim>\<open>capacity\<close>,
  every key findable by probing from its home bucket, no more live keys than \<^verbatim>\<open>used\<close>) and
  a new capacity \<open>c\<close> with \<open>c \<ge> used / 0.5\<close>, \<^verbatim>\<open>reshape(c)\<close> returns, leaves \<^verbatim>\<open>used\<close> unchanged,
  and every pair stored before is retrievable afterwards: \<^verbatim>\<open>getBatch\<close> gives the same values
  for the same keys before and after, and each slot's key is looked up to the slot's value.
\<close>

theorem reshape_preserves_entries:
  assumes "length (table t) = unat (capacity t)" "probe_inv (table t) (capacity t)"
    and "card (live_keys (table t)) \<le> unat (used_buckets t)"
    and "covers sched (unat (capacity t))"
    and "2 * uint (used_buckets t) \<le> c" "c < 2 ^ 31"
    and "set ks \<subseteq> live_keys (table t)" "length ks < 2 ^ 31" "covers gs (length ks)"
  shows "\<exists>t' vs. reshape t c sched = Return t'
      \<and> used_buckets t' = used_buckets t \<and> capacity t' = word_of_int c
      \<and> getBatch t ks gs = Return (vs, t) \<and> getBatch t' ks gs = Return (vs, t')
      \<and> vs = (if ks = [] then NULL
               else Values (map (\<lambda>k. the (lookup (table t) (capacity t) k)) ks))
      \<and> (\<forall>i<length (table t). key (table t ! i) \<noteq> KEY_INVALID \<longrightarrow>
            lookup (table t') (capacity t') (key (table t ! i)) = Some (value (table t ! i)))"
proof -
  have u0: "0 \<le> uint (used_buckets t)" by simp
  have c0: "0 \<le> c" using assms(5) u0 by linarith
  have "int (unat (used_buckets t)) = uint (used_buckets t)" by simp
  then have uc: "int (unat (used_buckets t)) \<le> c" using assms(5) u0 by linarith
  have c32: "c < 2 ^ 32" using assms(6) by simp
  have room: "card (live_keys (table t)) \<le> nat c" using assms(3) uc by linarith
  obtain t' where t': "reshape t c sched = Return t'" "capacity t' = word_of_int c"
    "used_buckets t' = used_buckets t" "length (table t') = unat (capacity t')"
    "live_keys (table t') = live_keys (table t)"
    "\<forall>k. k \<noteq> KEY_INVALID \<longrightarrow> lookup (table t') (capacity t') k = lookup (table t) (capacity t) k"
    using reshape_valid[OF assms(1,2,4) c0 c32 room] by blast
  let ?vs = "if ks = [] then NULL else Values (map (\<lambda>k. the (lookup (table t) (capacity t) k)) ks)"
  have fr: "\<forall>i<length (table t). key (table t ! i) \<noteq> KEY_INVALID \<longrightarrow>
            lookup (table t') (capacity t') (key (table t ! i)) = Some (value (table t ! i))"
  proof (intro allI impI)
    fix i assume i: "i < length (table t)" "key (table t ! i) \<noteq> KEY_INVALID"
    then have "capacity t \<noteq> 0" using assms(1) by auto
    then have "lookup (table t) (capacity t) (key (table t ! i)) = Some (value (table t ! i))"
      using assms(1,2) i by (intro lookup_present) simp_all
    then show "lookup (table t') (capacity t') (key (table t ! i)) = Some (value (table t ! i))"
      using t'(6) i(2) by simp
  qed
  have g: "getBatch t ks gs = Return (?vs, t) \<and> getBatch t' ks gs = Return (?vs, t')"
  proof (cases "ks = []")
    case True
    then show ?thesis by (simp add: getBatch_def)
  next
    case False
    then obtain k0 where k0: "k0 \<in> live_keys (table t)" using assms(7) by (cases ks) auto
    have ni: "\<forall>k \<in> set ks. k \<noteq> KEY_INVALID" using assms(7) by (auto simp: live_keys_def)
    have fin: "finite (live_keys (table t))" by (rule finite_live_keys)
    have "0 < card (live_keys (table t))" using k0 fin by (auto simp: card_gt_0_iff)
    then have cpos: "0 < nat c" using room by (rule less_le_trans)
    have ct: "capacity t \<noteq> 0"
    proof
      assume "capacity t = 0"
      then have "table t = []" using assms(1) by simp
      then show False using k0 by (simp add: live_keys_def)
    qed
    have "unat (capacity t') = nat c"
      using t'(2) c0 c32 by (simp add: unat_eq_nat_uint uint_word_of_int take_bit_int_eq_self)
    then have ct': "capacity t' \<noteq> 0" using cpos by auto
    have n: "length ks < 2 ^ 32" using assms(8) by simp
    have p: "\<forall>k \<in> set ks. lookup (table t) (capacity t) k \<noteq> None"
      using lookup_dom[OF ct assms(1)] ni assms(7) by auto
    have p': "\<forall>k \<in> set ks. lookup (table t') (capacity t') k \<noteq> None"
      using p t'(6) ni by simp
    have e: "map (\<lambda>k. the (lookup (table t') (capacity t') k)) ks
           = map (\<lambda>k. the (lookup (table t) (capacity t) k)) ks"
      using t'(6) ni by simp
    show ?thesis
      using getBatch_present[OF ct n assms(9) p] getBatch_present[OF ct' n assms(9) p'] e False
      by simp
  qed
  show ?thesis using t'(1,2,3) g fr by blast
qed

lemma obind_Return [simp]: "obind (Return x) f = f x"
  by (simp add: obind_def)

lemma live_keys_capacity:
  assumes "length (table t) = unat (capacity t)" "k \<in> live_keys (table t)"
  shows "capacity t \<noteq> 0"
proof
  assume "capacity t = 0"
  then have "table t = []" using assms(1) by simp
  then show False using assms(2) by (simp add: live_keys_def)
qed

lemma lookup_live_iff:
  assumes "length tbl = unat cap" "k \<noteq> KEY_INVALID"
  shows "lookup tbl cap k \<noteq> None \<longleftrightarrow> k \<in> live_keys tbl"
proof (cases "cap = 0")
  case True
  then have "tbl = []" using assms(1) by simp
  then show ?thesis using True by (simp add: lookup_def first_slot_def live_keys_def)
next
  case False
  then show ?thesis using assms by (rule lookup_dom)
qed

lemma represents_dom:
  assumes "represents t m"
  shows "dom m = live_keys (table t)"
proof -
  have len: "length (table t) = unat (capacity t)" and n: "m KEY_INVALID = None"
    and l: "\<And>k. k \<noteq> KEY_INVALID \<Longrightarrow> lookup (table t) (capacity t) k = m k"
    using assms by (simp_all add: represents_def consistent_def)
  have "k \<in> dom m \<longleftrightarrow> k \<in> live_keys (table t)" for k
  proof (cases "k = KEY_INVALID")
    case True
    then show ?thesis using n by (auto simp: live_keys_def)
  next
    case False
    then show ?thesis using lookup_live_iff[OF len False] l[OF False] by auto
  qed
  then show ?thesis by blast
qed

lemma constructor_represents:
  assumes "GpuHashTable_constructor sz = Return t0" "sz < 2 ^ 31"
  shows "represents t0 Map.empty" "unat (used_buckets t0) = 0" "t0 = empty_table (nat sz)"
proof -
  have s0: "0 \<le> sz" using assms(1) by (auto simp: GpuHashTable_constructor_def split: if_splits)
  have s32: "nat sz < 2 ^ 32" using assms(2) s0 by (simp add: nat_less_iff)
  have "word_of_int sz = (word_of_nat (nat sz) :: uint32)" using s0 by simp
  then show e: "t0 = empty_table (nat sz)"
    using assms(1) s0 by (auto simp: GpuHashTable_constructor_def empty_table_def split: if_splits)
  note ti = table_inv_empty_table[OF s32]
  show "unat (used_buckets t0) = 0" using e ti(4) by simp
  have "lookup (table t0) (capacity t0) k = None" if "k \<noteq> KEY_INVALID" for k
    using ti(1) _ that unfolding e by (rule lookup_not_live) (simp add: ti(3))
  then show "represents t0 Map.empty"
    using e ti by (simp add: represents_def consistent_def)
qed

lemma batch_map_point:
  "m k = m' k \<Longrightarrow> batch_map dk dv n sched m k = batch_map dk dv n sched m' k"
proof (induction sched arbitrary: m m')
  case Nil
  then show ?case by simp
next
  case (Cons j js)
  have "(if j < n then upd (dk ! j) (dv ! j) m else m) k
      = (if j < n then upd (dk ! j) (dv ! j) m' else m') k"
    using Cons.prems by (simp add: upd_def)
  then have "batch_map dk dv n js (if j < n then upd (dk ! j) (dv ! j) m else m) k
      = batch_map dk dv n js (if j < n then upd (dk ! j) (dv ! j) m' else m') k"
    by (rule Cons.IH)
  then show ?case by (simp only: batch_map_Cons)
qed

lemma batch_map_sentinel: "batch_map dk dv n sched m KEY_INVALID = m KEY_INVALID"
proof (induction sched arbitrary: m)
  case Nil
  then show ?case by simp
next
  case (Cons j js)
  have "batch_map dk dv n js (if j < n then upd (dk ! j) (dv ! j) m else m) KEY_INVALID
      = (if j < n then upd (dk ! j) (dv ! j) m else m) KEY_INVALID"
    by (rule Cons.IH)
  also have "\<dots> = m KEY_INVALID" by (simp add: upd_def)
  finally show ?case by (simp only: batch_map_Cons)
qed

lemma batch_map_written:
  "k \<noteq> KEY_INVALID \<Longrightarrow> \<exists>i \<in> set sched. i < n \<and> dk ! i = k \<Longrightarrow>
     \<exists>i<n. dk ! i = k \<and> batch_map dk dv n sched m k = Some (dv ! i)"
proof (induction sched arbitrary: m)
  case Nil
  then show ?case by simp
next
  case (Cons j js)
  let ?m = "if j < n then upd (dk ! j) (dv ! j) m else m"
  show ?case
  proof (cases "\<exists>i \<in> set js. i < n \<and> dk ! i = k")
    case True
    then show ?thesis using Cons.IH[OF Cons.prems(1), of ?m] by simp
  next
    case False
    then have j: "j < n" "dk ! j = k" using Cons.prems(2) by auto
    have "k \<notin> (\<lambda>i. dk ! i) ` {i \<in> set js. i < n}" using False by auto
    then have "batch_map dk dv n js ?m k = ?m k" by (rule batch_map_other)
    then have "batch_map dk dv n (j # js) m k = Some (dv ! j)"
      using j Cons.prems(1) by (simp add: upd_def)
    then show ?thesis using j by blast
  qed
qed

lemma store_op_batch_map:
  assumes "KEY_INVALID \<notin> set keys"
  shows "store_op sch (InsertBatch keys vals) m
           = batch_map keys vals (length keys) (sch (length keys)) m"
proof -
  have "(if i < length keys then m(keys ! i \<mapsto> vals ! i) else m)
      = (if i < length keys then upd (keys ! i) (vals ! i) m else m)" for i and m :: "uint32 \<rightharpoonup> uint32"
  proof (cases "i < length keys")
    case True
    then have "keys ! i \<in> set keys" by (rule nth_mem)
    then have "keys ! i \<noteq> KEY_INVALID" using assms by auto
    then show ?thesis by (simp add: upd_def)
  next
    case False
    then show ?thesis by simp
  qed
  then show ?thesis by (simp add: batch_map_def)
qed

lemma batch_map_zip:
  assumes d: "distinct keys" and ni: "KEY_INVALID \<notin> set keys" and l: "length vals = length keys"
    and cov: "covers sched (length keys)"
  shows "batch_map keys vals (length keys) sched m k = (m ++ map_of (zip keys vals)) k"
proof (cases "k \<in> set keys")
  case True
  then obtain i where i: "i < length keys" "keys ! i = k" by (auto simp: in_set_conv_nth)
  have "i \<in> set sched" using cov i(1) by (simp add: covers_iff)
  then have "batch_map keys vals (length keys) sched m (keys ! i) = Some (vals ! i)"
    using batch_map_distinct[OF d order_refl i(1), where dv = vals and sched = sched and m = m] ni i(1)
    by (metis nth_mem)
  moreover have "map_of (zip keys vals) (keys ! i) = Some (vals ! i)"
    using d l i(1) by (simp add: map_of_zip_nth)
  ultimately show ?thesis using i(2) by (simp add: map_add_def)
next
  case False
  then have "k \<notin> (\<lambda>i. keys ! i) ` {i \<in> set sched. i < length keys}" by auto
  then have "batch_map keys vals (length keys) sched m k = m k" by (rule batch_map_other)
  moreover have "map_of (zip keys vals) k = None"
    using False l by (simp add: map_of_zip_is_None)
  ultimately show ?thesis by (simp add: map_add_def)
qed

lemma insertBatch_consistent:
  assumes ne: "keys \<noteq> []" and lv: "length keys \<le> length vals"
    and size: "unat (used_buckets t) + length keys \<le> max_projected"
    and con: "consistent t"
    and covr: "covers rsched (unat (capacity t))" and cov: "covers isched (length keys)"
  shows "\<exists>t'. insertBatch t keys vals rsched isched = Return (True, t') \<and> consistent t'
      \<and> live_keys (table t') = live_keys (table t) \<union> (set keys - {KEY_INVALID})
      \<and> unat (used_buckets t')
           = unat (used_buckets t) + card (set keys - {KEY_INVALID} - live_keys (table t))
      \<and> (\<forall>k. k \<noteq> KEY_INVALID \<longrightarrow>
            lookup (table t') (capacity t') k
              = batch_map keys vals (length keys) isched (lookup (table t) (capacity t)) k)"
proof -
  have len: "length (table t) = unat (capacity t)" and inv: "probe_inv (table t) (capacity t)"
    and used: "unat (used_buckets t) = card (live_keys (table t))"
    using con by (simp_all add: consistent_def)
  have u: "card (live_keys (table t)) \<le> unat (used_buckets t)" using used by simp
  obtain t' where t': "insertBatch t keys vals rsched isched = Return (True, t')"
    "length (table t') = unat (capacity t')" "probe_inv (table t') (capacity t')"
    "live_keys (table t') = live_keys (table t) \<union> (set keys - {KEY_INVALID})"
    "unat (used_buckets t') + card (live_keys (table t))
           = unat (used_buckets t) + card (live_keys (table t'))"
    "\<forall>k. k \<noteq> KEY_INVALID \<longrightarrow>
            lookup (table t') (capacity t') k
              = batch_map keys vals (length keys) isched (lookup (table t) (capacity t)) k"
    using insertBatch_valid[OF ne lv size len inv u covr cov] by blast
  have u': "unat (used_buckets t') = card (live_keys (table t'))" using t'(5) used by simp
  have "live_keys (table t') = live_keys (table t) \<union> (set keys - {KEY_INVALID} - live_keys (table t))"
    using t'(4) by auto
  then have "card (live_keys (table t'))
      = card (live_keys (table t)) + card (set keys - {KEY_INVALID} - live_keys (table t))"
    by (metis Diff_disjoint List.finite_set card_Un_disjoint finite_Diff finite_live_keys)
  then have "unat (used_buckets t')
           = unat (used_buckets t) + card (set keys - {KEY_INVALID} - live_keys (table t))"
    using u' used by simp
  then show ?thesis using t' u' by (auto simp: consistent_def)
qed

lemma reshape_consistent:
  assumes con: "consistent t" and cov: "covers sched (unat (capacity t))"
    and c: "int (card (live_keys (table t))) \<le> c" "c < 2 ^ 31"
  shows "\<exists>t'. reshape t c sched = Return t' \<and> consistent t' \<and> capacity t' = word_of_int c
      \<and> used_buckets t' = used_buckets t \<and> live_keys (table t') = live_keys (table t)
      \<and> (\<forall>k. k \<noteq> KEY_INVALID \<longrightarrow>
            lookup (table t') (capacity t') k = lookup (table t) (capacity t) k)"
proof -
  have len: "length (table t) = unat (capacity t)" and inv: "probe_inv (table t) (capacity t)"
    and used: "unat (used_buckets t) = card (live_keys (table t))"
    using con by (simp_all add: consistent_def)
  have c0: "0 \<le> c" using c(1) by linarith
  have c32: "c < 2 ^ 32" using c(2) by simp
  have room: "card (live_keys (table t)) \<le> nat c" using c(1) by linarith
  obtain t' where t': "reshape t c sched = Return t'" "capacity t' = word_of_int c"
    "used_buckets t' = used_buckets t" "length (table t') = unat (capacity t')"
    "probe_inv (table t') (capacity t')"
    "live_keys (table t') = live_keys (table t)"
    "\<forall>k. k \<noteq> KEY_INVALID \<longrightarrow> lookup (table t') (capacity t') k = lookup (table t) (capacity t) k"
    using reshape_valid[OF len inv cov c0 c32 room] by blast
  then show ?thesis using used by (auto simp: consistent_def)
qed

lemma getBatch_represents:
  assumes r: "represents t m" and ks: "set keys \<subseteq> dom m" "length keys < 2 ^ 31"
    and cov: "covers sched (length keys)"
  shows "getBatch t keys sched
           = Return (if keys = [] then NULL else Values (map (\<lambda>k. the (m k)) keys), t)"
proof (cases "keys = []")
  case True
  then show ?thesis by (simp add: getBatch_def)
next
  case False
  have len: "length (table t) = unat (capacity t)" and n: "m KEY_INVALID = None"
    and l: "\<And>k. k \<noteq> KEY_INVALID \<Longrightarrow> lookup (table t) (capacity t) k = m k"
    using r by (simp_all add: represents_def consistent_def)
  have ni: "\<forall>k \<in> set keys. k \<noteq> KEY_INVALID" using ks(1) n by auto
  obtain k0 where "k0 \<in> set keys" using False by (cases keys) auto
  then have "k0 \<in> live_keys (table t)" using ks(1) represents_dom[OF r] by auto
  then have ct: "capacity t \<noteq> 0" using len live_keys_capacity by blast
  have n32: "length keys < 2 ^ 32" using ks(2) by simp
  have p: "\<forall>k \<in> set keys. lookup (table t) (capacity t) k \<noteq> None"
    using ks(1) ni l by auto
  have "map (\<lambda>k. the (lookup (table t) (capacity t) k)) keys = map (\<lambda>k. the (m k)) keys"
    using ni l by simp
  then show ?thesis using getBatch_present[OF ct n32 cov p] False by simp
qed

lemma perform_represents:
  assumes sch: "\<forall>n. covers (sch n) n" and r: "represents t m" and a: "admissible_op x m"
    and size: "unat (used_buckets t) + batch_size x \<le> max_projected"
  shows "\<exists>t'. perform sch x t = Return t' \<and> represents t' (store_op sch x m)
      \<and> unat (used_buckets t') \<le> unat (used_buckets t) + batch_size x"
proof (cases x)
  case (InsertBatch keys vals)
  have con: "consistent t" and n: "m KEY_INVALID = None"
    and l: "\<And>k. k \<noteq> KEY_INVALID \<Longrightarrow> lookup (table t) (capacity t) k = m k"
    using r by (simp_all add: represents_def)
  have ni: "KEY_INVALID \<notin> set keys" and lv: "length vals = length keys"
    using a InsertBatch by simp_all
  note so = store_op_batch_map[OF ni, of sch vals m]
  show ?thesis
  proof (cases "keys = []")
    case True
    have "store_op sch (InsertBatch keys vals) m k = m k" for k
      unfolding so using True by (intro batch_map_other) simp
    then have "store_op sch (InsertBatch keys vals) m = m" by blast
    then show ?thesis using True InsertBatch r
      by (simp add: insertBatch_def obind_def del: store_op.simps)
  next
    case False
    have lv': "length keys \<le> length vals" using lv by simp
    have sz: "unat (used_buckets t) + length keys \<le> max_projected" using size InsertBatch by simp
    have covr: "covers (sch (unat (capacity t))) (unat (capacity t))" using sch by simp
    have cov: "covers (sch (length keys)) (length keys)" using sch by simp
    obtain t' where t': "insertBatch t keys vals (sch (unat (capacity t))) (sch (length keys)) = Return (True, t')"
      "consistent t'"
      "unat (used_buckets t')
           = unat (used_buckets t) + card (set keys - {KEY_INVALID} - live_keys (table t))"
      "\<forall>k. k \<noteq> KEY_INVALID \<longrightarrow>
            lookup (table t') (capacity t') k
              = batch_map keys vals (length keys) (sch (length keys)) (lookup (table t) (capacity t)) k"
      using insertBatch_consistent[OF False lv' sz con covr cov] by blast
    have lk: "lookup (table t') (capacity t') k = store_op sch (InsertBatch keys vals) m k"
      if "k \<noteq> KEY_INVALID" for k
      using t'(4) that
        batch_map_point[where m = "lookup (table t) (capacity t)" and m' = m and k = k, OF l[OF that]]
      unfolding so by simp
    have n': "store_op sch (InsertBatch keys vals) m KEY_INVALID = None"
      unfolding so using n by (simp add: batch_map_sentinel)
    have "card (set keys - {KEY_INVALID} - live_keys (table t)) \<le> card (set keys)"
      by (intro card_mono) auto
    also have "\<dots> \<le> length keys" by (rule card_length)
    finally have b: "unat (used_buckets t') \<le> unat (used_buckets t) + length keys" using t'(3) by simp
    show ?thesis using InsertBatch t'(1,2) lk n' b
      by (simp add: represents_def obind_def del: store_op.simps)
  qed
next
  case (GetBatch keys)
  have "set keys \<subseteq> dom m" "length keys < 2 ^ 31" using a GetBatch by simp_all
  then have "getBatch t keys (sch (length keys))
           = Return (if keys = [] then NULL else Values (map (\<lambda>k. the (m k)) keys), t)"
    using sch by (intro getBatch_represents[OF r]) simp_all
  then show ?thesis using GetBatch r by simp
next
  case (Reshape c)
  have con: "consistent t" and n: "m KEY_INVALID = None"
    and l: "\<And>k. k \<noteq> KEY_INVALID \<Longrightarrow> lookup (table t) (capacity t) k = m k"
    using r by (simp_all add: represents_def)
  have c: "int (card (live_keys (table t))) \<le> c" "c < 2 ^ 31"
    using a Reshape represents_dom[OF r] by simp_all
  have covr: "covers (sch (unat (capacity t))) (unat (capacity t))" using sch by simp
  obtain t' where t': "reshape t c (sch (unat (capacity t))) = Return t'" "consistent t'"
    "used_buckets t' = used_buckets t"
    "\<forall>k. k \<noteq> KEY_INVALID \<longrightarrow> lookup (table t') (capacity t') k = lookup (table t) (capacity t) k"
    using reshape_consistent[OF con covr c] by blast
  then show ?thesis using Reshape n l by (simp add: represents_def)
qed

lemma run_represents:
  assumes sch: "\<forall>n. covers (sch n) n"
  shows "represents t m \<Longrightarrow> admissible sch ops m \<Longrightarrow>
     unat (used_buckets t) + total_keys ops \<le> max_projected \<Longrightarrow>
     \<exists>t'. run sch ops t = Return t' \<and> represents t' (fold (store_op sch) ops m)
        \<and> unat (used_buckets t') \<le> unat (used_buckets t) + total_keys ops"
proof (induction ops arbitrary: t m)
  case Nil
  then show ?case by simp
next
  case (Cons x ops)
  have a: "admissible_op x m" "admissible sch ops (store_op sch x m)" using Cons.prems(2) by simp_all
  have "unat (used_buckets t) + batch_size x \<le> max_projected" using Cons.prems(3) by simp
  then obtain t1 where t1: "perform sch x t = Return t1" "represents t1 (store_op sch x m)"
    "unat (used_buckets t1) \<le> unat (used_buckets t) + batch_size x"
    using perform_represents[OF sch Cons.prems(1) a(1)] by blast
  have "unat (used_buckets t1) + total_keys ops \<le> max_projected" using t1(3) Cons.prems(3) by simp
  then obtain t' where t': "run sch ops t1 = Return t'"
    "represents t' (fold (store_op sch) ops (store_op sch x m))"
    "unat (used_buckets t') \<le> unat (used_buckets t1) + total_keys ops"
    using Cons.IH[OF t1(2) a(2)] by blast
  have "unat (used_buckets t') \<le> unat (used_buckets t) + total_keys (x # ops)"
    using t'(3) t1(3) by simp
  then show ?case using t1(1) t'(1,2) by (simp add: obind_def)
qed

lemma run_contents:
  assumes "\<forall>n. covers (sch n) n" "GpuHashTable_constructor sz = Return t0" "sz < 2 ^ 31"
    and "admissible sch ops Map.empty" "total_keys ops \<le> max_projected"
  shows "\<exists>t. run sch ops t0 = Return t \<and> represents t (contents sch ops)
       \<and> unat (used_buckets t) \<le> total_keys ops"
  using run_represents[OF assms(1) constructor_represents(1)[OF assms(2,3)] assms(4)]
    constructor_represents(2)[OF assms(2,3)] assms(5)
  by (simp add: contents_def)

lemma store_op_other: "\<not> inserts_key k x \<Longrightarrow> store_op sch x m k = m k"
proof (cases x)
  case (InsertBatch keys vals)
  assume "\<not> inserts_key k x"
  then have k: "k \<notin> set keys" using InsertBatch by simp
  have "fold (\<lambda>i m. if i < length keys then m(keys ! i \<mapsto> vals ! i) else m) js m k = m k"
    for js
  proof (induction js arbitrary: m)
    case Nil
    then show ?case by simp
  next
    case (Cons j js)
    have "j < length keys \<Longrightarrow> keys ! j \<noteq> k" using k nth_mem by blast
    then have "(if j < length keys then m(keys ! j \<mapsto> vals ! j) else m) k = m k" by auto
    then show ?case using Cons.IH[of "if j < length keys then m(keys ! j \<mapsto> vals ! j) else m"]
      by simp
  qed
  then show ?thesis using InsertBatch by simp
qed simp_all

lemma fold_store_op_other:
  "\<forall>x \<in> set ops. \<not> inserts_key k x \<Longrightarrow> fold (store_op sch) ops m k = m k"
proof (induction ops arbitrary: m)
  case Nil
  then show ?case by simp
next
  case (Cons x ops)
  have "store_op sch x m k = m k" using Cons.prems by (intro store_op_other) simp
  then show ?case using Cons by simp
qed

lemma admissible_append:
  "admissible sch (xs @ ys) m \<longleftrightarrow> admissible sch xs m \<and> admissible sch ys (fold (store_op sch) xs m)"
  by (induction xs arbitrary: m) simp_all

lemma store_op_written:
  assumes "covers (sch (length keys)) (length keys)" "KEY_INVALID \<notin> set keys" "i < length keys"
  shows "\<exists>i'<length keys. keys ! i' = keys ! i
           \<and> store_op sch (InsertBatch keys vals) m (keys ! i) = Some (vals ! i')"
proof -
  have "keys ! i \<noteq> KEY_INVALID" using assms(2,3) by (metis nth_mem)
  moreover have "\<exists>i' \<in> set (sch (length keys)). i' < length keys \<and> keys ! i' = keys ! i"
    using assms(1,3) by (auto simp: covers_iff)
  ultimately show ?thesis
    unfolding store_op_batch_map[OF assms(2)] by (rule batch_map_written)
qed

lemma contents_last_written:
  assumes "\<forall>n. covers (sch n) n"
    and "admissible sch (ops1 @ InsertBatch keys vals # ops2) m" "i < length keys"
    and "\<forall>x \<in> set ops2. \<not> inserts_key (keys ! i) x"
  shows "\<exists>i'<length keys. keys ! i' = keys ! i
           \<and> fold (store_op sch) (ops1 @ InsertBatch keys vals # ops2) m (keys ! i) = Some (vals ! i')"
proof -
  let ?m1 = "fold (store_op sch) ops1 m"
  have "admissible_op (InsertBatch keys vals) ?m1" using assms(2) by (simp add: admissible_append)
  then have ni: "KEY_INVALID \<notin> set keys" by simp
  have cov: "covers (sch (length keys)) (length keys)" using assms(1) by simp
  obtain i' where i': "i' < length keys" "keys ! i' = keys ! i"
    "store_op sch (InsertBatch keys vals) ?m1 (keys ! i) = Some (vals ! i')"
    using store_op_written[where sch = sch and keys = keys and i = i and vals = vals and m = ?m1]
      cov ni assms(3) by blast
  have "fold (store_op sch) (ops1 @ InsertBatch keys vals # ops2) m (keys ! i) = Some (vals ! i')"
    using fold_store_op_other[OF assms(4)] i'(3) by (simp del: store_op.simps)
  then show ?thesis using i'(1,2) by blast
qed

lemma store_op_dom:
  assumes "covers (sch (batch_size x)) (batch_size x)" "admissible_op x m"
  shows "dom (store_op sch x m) = dom m \<union> {k. inserts_key k x}"
proof (cases x)
  case (InsertBatch keys vals)
  have cov: "covers (sch (length keys)) (length keys)" using assms(1) InsertBatch by simp
  have ni: "KEY_INVALID \<notin> set keys" using assms(2) InsertBatch by simp
  have "k \<in> dom (store_op sch x m) \<longleftrightarrow> k \<in> dom m \<or> k \<in> set keys" for k
  proof (cases "k \<in> set keys")
    case True
    then obtain i where "i < length keys" "keys ! i = k" by (auto simp: in_set_conv_nth)
    then obtain i' where "store_op sch (InsertBatch keys vals) m k = Some (vals ! i')"
      using store_op_written[where sch = sch and keys = keys and i = i and vals = vals and m = m]
        cov ni by blast
    then have "k \<in> dom (store_op sch x m)" unfolding InsertBatch by blast
    then show ?thesis using True by blast
  next
    case False
    then have "store_op sch x m k = m k" using InsertBatch by (intro store_op_other) simp
    then show ?thesis using False by (simp add: dom_def)
  qed
  moreover have "{k. inserts_key k x} = set keys" using InsertBatch by simp
  ultimately show ?thesis by blast
qed simp_all

lemma contents_dom:
  assumes "\<forall>n. covers (sch n) n"
  shows "admissible sch ops m \<Longrightarrow>
     dom (fold (store_op sch) ops m) = dom m \<union> {k. \<exists>x \<in> set ops. inserts_key k x}"
proof (induction ops arbitrary: m)
  case Nil
  then show ?case by simp
next
  case (Cons x ops)
  have a: "admissible_op x m" "admissible sch ops (store_op sch x m)" using Cons.prems by simp_all
  have "covers (sch (batch_size x)) (batch_size x)" using assms by simp
  then have "dom (store_op sch x m) = dom m \<union> {k. inserts_key k x}" using a(1) by (rule store_op_dom)
  then show ?case using Cons.IH[OF a(2)] by auto
qed

lemma store_op_distinct:
  assumes "covers (sch (length keys)) (length keys)" "KEY_INVALID \<notin> set keys"
    and "distinct keys" "length vals = length keys"
  shows "store_op sch (InsertBatch keys vals) m = m ++ map_of (zip keys vals)"
  unfolding store_op_batch_map[OF assms(2)] using batch_map_zip[OF assms(3,2,4,1)] by blast

lemma constructor_empty_table: "GpuHashTable_constructor 8 = Return (empty_table 8)"
  by (simp add: GpuHashTable_constructor_def empty_table_def)

lemma example_table_run:
  "run (upt 0) [InsertBatch [1, 2, 3] [10, 20, 30]] (empty_table 8) = Return example_table"
  "represents example_table (contents (upt 0) [InsertBatch [1, 2, 3] [10, 20, 30]])"
proof -
  let ?ops = "[InsertBatch [1, 2, 3] [10, 20, 30]]"
  have s: "\<forall>n. covers (upt 0 n) n" by (simp add: covers_upt)
  have a: "admissible (upt 0) ?ops Map.empty" by (simp add: KEY_INVALID_def)
  have b: "total_keys ?ops \<le> max_projected" by (simp add: max_projected_def)
  obtain t where t: "run (upt 0) ?ops (empty_table 8) = Return t" "represents t (contents (upt 0) ?ops)"
    using run_contents[OF s constructor_empty_table _ a b] by auto
  then have "example_table = t" by (simp add: example_table_def result_def)
  then show "run (upt 0) ?ops (empty_table 8) = Return example_table"
    "represents example_table (contents (upt 0) ?ops)" using t by simp_all
qed

lemma example_table_fields:
  "capacity example_table = 8" "used_buckets example_table = 3"
  "table example_table =
     [\<lparr>key = KEY_INVALID, value = KEY_INVALID\<rparr>, \<lparr>key = KEY_INVALID, value = KEY_INVALID\<rparr>,
      \<lparr>key = KEY_INVALID, value = KEY_INVALID\<rparr>, \<lparr>key = KEY_INVALID, value = KEY_INVALID\<rparr>,
      \<lparr>key = 3, value = 30\<rparr>, \<lparr>key = 2, value = 20\<rparr>, \<lparr>key = 1, value = 10\<rparr>,
      \<lparr>key = KEY_INVALID, value = KEY_INVALID\<rparr>]"
  by code_simp+

lemma example_table_inv:
  "length (table example_table) = unat (capacity example_table)"
  "probe_inv (table example_table) (capacity example_table)"
  "unat (used_buckets example_table) = card (live_keys (table example_table))"
  "live_keys (table example_table) = {1, 2, 3}"
  "\<And>k. k \<noteq> KEY_INVALID \<Longrightarrow>
     lookup (table example_table) (capacity example_table) k = map_of [(1, 10), (2, 20), (3, 30)] k"
proof -
  note r = example_table_run(2)
  show "length (table example_table) = unat (capacity example_table)"
    "probe_inv (table example_table) (capacity example_table)"
    "unat (used_buckets example_table) = card (live_keys (table example_table))"
    using r by (simp_all add: represents_def consistent_def)
  have "covers (upt 0 (length [1, 2, 3 :: uint32])) (length [1, 2, 3 :: uint32])" by (rule covers_upt)
  then have "store_op (upt 0) (InsertBatch [1, 2, 3] [10, 20, 30]) Map.empty
      = Map.empty ++ map_of (zip [1, 2, 3] [10, 20, 30])"
    by (rule store_op_distinct) (simp_all add: KEY_INVALID_def)
  then have c: "contents (upt 0) [InsertBatch [1, 2, 3] [10, 20, 30]] = map_of [(1, 10), (2, 20), (3, 30)]"
    by (simp add: contents_def del: store_op.simps)
  show "live_keys (table example_table) = {1, 2, 3}"
    using represents_dom[OF r] unfolding c by auto
  show "\<And>k. k \<noteq> KEY_INVALID \<Longrightarrow>
     lookup (table example_table) (capacity example_table) k = map_of [(1, 10), (2, 20), (3, 30)] k"
    using r unfolding c by (simp add: represents_def)
qed

theorem reshape_preserves_entries_witness:
  "length (table example_table) = unat (capacity example_table)
   \<and> probe_inv (table example_table) (capacity example_table)
   \<and> card (live_keys (table example_table)) \<le> unat (used_buckets example_table)
   \<and> covers [0..<8] (unat (capacity example_table))
   \<and> 2 * uint (used_buckets example_table) \<le> 6 \<and> (6 :: int) < 2 ^ 31
   \<and> set [2, 1] \<subseteq> live_keys (table example_table)
   \<and> length [2, 1 :: uint32] < 2 ^ 31 \<and> covers [0..<2] (length [2, 1 :: uint32])
   \<and> (\<exists>t'. reshape example_table 6 [0..<8] = Return t'
          \<and> used_buckets t' = used_buckets example_table \<and> capacity t' = 6
          \<and> getBatch example_table [2, 1] [0..<2] = Return (Values [20, 10], example_table)
          \<and> getBatch t' [2, 1] [0..<2] = Return (Values [20, 10], t'))"
proof -
  let ?t = example_table
  note i = example_table_inv and f = example_table_fields(1,2)
  have h3: "card (live_keys (table ?t)) \<le> unat (used_buckets ?t)" using i(3) by simp
  have h4: "covers [0..<8] (unat (capacity ?t))" using covers_upt[of 8] by (simp add: f)
  have h5: "2 * uint (used_buckets ?t) \<le> 6" by (simp add: f)
  have h6: "(6 :: int) < 2 ^ 31" by simp
  have h7: "set [2, 1] \<subseteq> live_keys (table ?t)" by (simp add: i(4))
  have h8: "length [2, 1 :: uint32] < 2 ^ 31" by simp
  have h9: "covers [0..<2] (length [2, 1 :: uint32])" by (simp add: covers_def)
  have k: "(2 :: uint32) \<noteq> KEY_INVALID" "(1 :: uint32) \<noteq> KEY_INVALID" by (simp_all add: KEY_INVALID_def)
  have l: "map (\<lambda>k. the (lookup (table ?t) (capacity ?t) k)) [2, 1] = [20, 10]"
    using i(5)[OF k(1)] i(5)[OF k(2)] by simp
  obtain t' vs where t': "reshape ?t 6 [0..<8] = Return t'"
    "used_buckets t' = used_buckets ?t" "capacity t' = word_of_int 6"
    "getBatch ?t [2, 1] [0..<2] = Return (vs, ?t)" "getBatch t' [2, 1] [0..<2] = Return (vs, t')"
    "vs = (if [2, 1 :: uint32] = [] then NULL
           else Values (map (\<lambda>k. the (lookup (table ?t) (capacity ?t) k)) [2, 1]))"
    using reshape_preserves_entries[OF i(1,2) h3 h4 h5 h6 h7 h8 h9] by blast
  have "vs = Values [20, 10]" using t'(6) unfolding l by simp
  then have "\<exists>t'. reshape ?t 6 [0..<8] = Return t'
          \<and> used_buckets t' = used_buckets ?t \<and> capacity t' = 6
          \<and> getBatch ?t [2, 1] [0..<2] = Return (Values [20, 10], ?t)
          \<and> getBatch t' [2, 1] [0..<2] = Return (Values [20, 10], t')"
    using t' by (intro exI[of _ t']) simp
  then show ?thesis using i(1,2) h3 h4 h5 h6 h7 h8 h9 by blast
qed

section \<open>Round trip\<close>

text \<open>
  Claim C1, as amended. Take a table fresh from the constructor and a sequence of public
  operations run one after the other, in which no batch holds the sentinel key, every
  \<^verbatim>\<open>getBatch\<close> asks for keys inserted before, and every \<^verbatim>\<open>reshape\<close> leaves room for the keys
  inserted before. If a key is inserted by one of the batches and by none of the later ones,
  a \<^verbatim>\<open>getBatch\<close> after the sequence, all of whose keys were inserted, returns at that key's
  position a value that this batch gave to the key: the value at the key's index when the
  batch holds the key once, and the value of the thread that ran last among those of the key
  otherwise.
\<close>

theorem insert_get_round_trip:
  assumes "\<forall>n. covers (sch n) n"
    and "GpuHashTable_constructor sz = Return t0" "sz < 2 ^ 31"
    and "ops = before @ InsertBatch keys vals # after"
    and "admissible sch ops Map.empty" "total_keys ops \<le> max_projected"
    and "i < length keys" "list_all (\<lambda>x. \<not> inserts_key (keys ! i) x) after"
    and "list_all (\<lambda>k. list_ex (inserts_key k) ops) ks" "length ks < 2 ^ 31"
    and "j < length ks" "ks ! j = keys ! i"
  shows "\<exists>t out. run sch ops t0 = Return t
      \<and> getBatch t ks (sch (length ks)) = Return (Values out, t)
      \<and> out = map (\<lambda>k. the (contents sch ops k)) ks \<and> length out = length ks
      \<and> (\<exists>i'<length keys. keys ! i' = keys ! i \<and> out ! j = vals ! i')
      \<and> (distinct keys \<longrightarrow> out ! j = vals ! i)"
proof -
  obtain t where t: "run sch ops t0 = Return t" "represents t (contents sch ops)"
    using run_contents[OF assms(1,2,3,5,6)] by blast
  have ne: "ks \<noteq> []" using assms(11) by auto
  have cov: "covers (sch (length ks)) (length ks)" using assms(1) by simp
  have "dom (contents sch ops) = {k. \<exists>x \<in> set ops. inserts_key k x}"
    unfolding contents_def using contents_dom[OF assms(1,5)] by simp
  then have sub: "set ks \<subseteq> dom (contents sch ops)"
    using assms(9) by (auto simp: list_all_iff list_ex_iff)
  let ?out = "map (\<lambda>k. the (contents sch ops k)) ks"
  have g: "getBatch t ks (sch (length ks)) = Return (Values ?out, t)"
    using getBatch_represents[OF t(2) sub assms(10) cov] ne by simp
  have "\<forall>x \<in> set after. \<not> inserts_key (keys ! i) x" using assms(8) by (simp add: list_all_iff)
  then obtain i' where i': "i' < length keys" "keys ! i' = keys ! i"
    "contents sch ops (keys ! i) = Some (vals ! i')"
    unfolding contents_def assms(4)
    using contents_last_written[OF assms(1) assms(5)[unfolded assms(4)] assms(7)] by blast
  have o: "?out ! j = vals ! i'" using i'(3) assms(11,12) by simp
  have "distinct keys \<longrightarrow> i' = i" using i'(1,2) assms(7) nth_eq_iff_index_eq by blast
  then have "distinct keys \<longrightarrow> ?out ! j = vals ! i" using o by simp
  moreover have "\<exists>i'<length keys. keys ! i' = keys ! i \<and> ?out ! j = vals ! i'"
    using i'(1,2) o by blast
  ultimately show ?thesis using t(1) g by simp
qed

theorem insert_get_round_trip_witness:
  "(\<forall>n. covers (upt 0 n) n) \<and> GpuHashTable_constructor 8 = Return (empty_table 8)
   \<and> (8 :: int) < 2 ^ 31
   \<and> example_run = [InsertBatch [1, 2] [10, 20]] @ InsertBatch [2, 3, 2] [21, 30, 22]
                       # [GetBatch [1], InsertBatch [3] [31], Reshape 5]
   \<and> admissible (upt 0) example_run Map.empty \<and> total_keys example_run \<le> max_projected
   \<and> 0 < length [2, 3, 2 :: uint32]
   \<and> list_all (\<lambda>x. \<not> inserts_key ([2, 3, 2] ! 0) x) [GetBatch [1], InsertBatch [3] [31], Reshape 5]
   \<and> list_all (\<lambda>k. list_ex (inserts_key k) example_run) [3, 2] \<and> length [3, 2 :: uint32] < 2 ^ 31
   \<and> 1 < length [3, 2 :: uint32] \<and> [3, 2 :: uint32] ! 1 = [2, 3, 2] ! 0
   \<and> (\<exists>t. run (upt 0) example_run (empty_table 8) = Return t
          \<and> getBatch t [3, 2] [0..<2] = Return (Values [31, 22], t))"
proof -
  have h1: "\<forall>n. covers (upt 0 n) n" by (simp add: covers_upt)
  have h3: "(8 :: int) < 2 ^ 31" by simp
  have h4: "example_run = [InsertBatch [1, 2] [10, 20]] @ InsertBatch [2, 3, 2] [21, 30, 22]
                       # [GetBatch [1], InsertBatch [3] [31], Reshape 5]"
    by (simp add: example_run_def)
  have c: "contents (upt 0) example_run 3 = Some 31" "contents (upt 0) example_run 2 = Some 22"
    by (simp_all add: example_run_def contents_def)
  have h5: "admissible (upt 0) example_run Map.empty"
    by (simp add: example_run_def KEY_INVALID_def card_insert_if)
  have h6: "total_keys example_run \<le> max_projected" by (simp add: example_run_def max_projected_def)
  have h7: "0 < length [2, 3, 2 :: uint32]" by simp
  have h8: "list_all (\<lambda>x. \<not> inserts_key ([2, 3, 2] ! 0) x) [GetBatch [1], InsertBatch [3] [31], Reshape 5]"
    by simp
  have h9: "list_all (\<lambda>k. list_ex (inserts_key k) example_run) [3, 2]" by (simp add: example_run_def)
  have h10: "length [3, 2 :: uint32] < 2 ^ 31" by simp
  have h11: "1 < length [3, 2 :: uint32]" by simp
  have h12: "[3, 2 :: uint32] ! 1 = [2, 3, 2] ! 0" by simp
  have l: "length [3, 2 :: uint32] = 2" by simp
  obtain t out where t: "run (upt 0) example_run (empty_table 8) = Return t"
    "getBatch t [3, 2] (upt 0 (length [3, 2 :: uint32])) = Return (Values out, t)"
    "out = map (\<lambda>k. the (contents (upt 0) example_run k)) [3, 2]"
    using insert_get_round_trip[OF h1 constructor_empty_table h3 h4 h5 h6 h7 h8 h9 h10 h11 h12]
    by blast
  have "out = [31, 22]" using t(3) c by simp
  then have "\<exists>t. run (upt 0) example_run (empty_table 8) = Return t
          \<and> getBatch t [3, 2] [0..<2] = Return (Values [31, 22], t)"
    using t(1,2) unfolding l by (intro exI[of _ t]) simp
  then show ?thesis using h1 constructor_empty_table h3 h4 h5 h6 h7 h8 h9 h10 h11 h12 by blast
qed

text \<open>
  Claim C1 as it was stated fails for a \<^verbatim>\<open>getBatch\<close> that holds an inserted key beside a key
  that was never inserted: after keys 1, 2 and 3 are inserted into a fresh table of capacity
  8, \<^verbatim>\<open>getBatch\<close> of key 1 alone returns its value 10, and \<^verbatim>\<open>getBatch\<close> of keys 1 and 9 does
  not return, the worker of key 9 never leaving its loop.
\<close>

theorem insert_get_round_trip_counterexample:
  "obind (GpuHashTable_constructor 8) (run (upt 0) [InsertBatch [1, 2, 3] [10, 20, 30]])
     = Return example_table
   \<and> getBatch example_table [1] [0..<1] = Return (Values [10], example_table)
   \<and> getBatch example_table [1, 9] [0..<2] = Hang"
proof -
  have 1: "obind (GpuHashTable_constructor 8) (run (upt 0) [InsertBatch [1, 2, 3] [10, 20, 30]])
     = Return example_table"
    using example_table_run(1) by (simp add: constructor_empty_table)
  have 2: "getBatch example_table [1] [0..<1] = Return (Values [10], example_table)" by code_simp
  have c: "capacity example_table \<noteq> 0" by (simp add: example_table_fields(1))
  have k: "(9 :: uint32) \<noteq> KEY_INVALID" by (simp add: KEY_INVALID_def)
  have "lookup (table example_table) (capacity example_table) 9 = None"
    using example_table_inv(1) _ k by (rule lookup_not_live) (simp add: example_table_inv(4))
  then have 3: "getBatch example_table [1, 9] [0..<2] = Hang"
    using c by (intro getBatch_absent) (simp_all add: covers_def)
  show ?thesis using 1 2 3 by simp
qed

lemma map_of_zip_map:
  assumes "distinct keys" "length vals = length keys"
  shows "map (\<lambda>k. the ((m ++ map_of (zip keys vals)) k)) keys = vals"
proof (intro nth_equalityI)
  show "length (map (\<lambda>k. the ((m ++ map_of (zip keys vals)) k)) keys) = length vals"
    using assms(2) by simp
  fix i assume "i < length (map (\<lambda>k. the ((m ++ map_of (zip keys vals)) k)) keys)"
  then have i: "i < length keys" by simp
  then have "map_of (zip keys vals) (keys ! i) = Some (vals ! i)"
    using assms by (simp add: map_of_zip_nth)
  then show "map (\<lambda>k. the ((m ++ map_of (zip keys vals)) k)) keys ! i = vals ! i"
    using i by (simp add: map_add_def)
qed

section \<open>Update in place\<close>

text \<open>
  Claim C4. After a sequence of operations as in the round trip, a batch whose keys were
  all inserted before (the batch \<open>[k]\<close>, \<open>[v2]\<close> after an insertion of \<open>(k, v1)\<close> is the case of
  one key) returns \<^verbatim>\<open>true\<close> and leaves \<^verbatim>\<open>used\<close> as it was, and a \<^verbatim>\<open>getBatch\<close> of the same keys
  right after it returns the values of that batch.
\<close>

theorem update_in_place:
  assumes "\<forall>n. covers (sch n) n"
    and "GpuHashTable_constructor sz = Return t0" "sz < 2 ^ 31"
    and "admissible sch ops Map.empty" "total_keys ops + length keys \<le> max_projected"
    and "keys \<noteq> []" "distinct keys" "length vals = length keys"
    and "list_all (\<lambda>k. list_ex (inserts_key k) ops) keys"
  shows "\<exists>t1 t2. run sch ops t0 = Return t1
      \<and> insertBatch t1 keys vals (sch (unat (capacity t1))) (sch (length keys)) = Return (True, t2)
      \<and> used_buckets t2 = used_buckets t1
      \<and> getBatch t2 keys (sch (length keys)) = Return (Values vals, t2)"
proof -
  let ?m = "contents sch ops"
  have tk: "total_keys ops \<le> max_projected" using assms(5) by simp
  obtain t1 where t1: "run sch ops t0 = Return t1" "represents t1 ?m"
    "unat (used_buckets t1) \<le> total_keys ops"
    using run_contents[OF assms(1,2,3,4) tk] by blast
  have con: "consistent t1" and n: "?m KEY_INVALID = None" using t1(2) by (simp_all add: represents_def)
  have "dom ?m = {k. \<exists>x \<in> set ops. inserts_key k x}"
    unfolding contents_def using contents_dom[OF assms(1,4)] by simp
  then have sub: "set keys \<subseteq> dom ?m" using assms(9) by (auto simp: list_all_iff list_ex_iff)
  then have ni: "KEY_INVALID \<notin> set keys" using n by auto
  have live: "set keys \<subseteq> live_keys (table t1)" using sub represents_dom[OF t1(2)] by simp
  have lv: "length keys \<le> length vals" using assms(8) by simp
  have sz: "unat (used_buckets t1) + length keys \<le> max_projected" using t1(3) assms(5) by simp
  have covr: "covers (sch (unat (capacity t1))) (unat (capacity t1))" using assms(1) by simp
  have cov: "covers (sch (length keys)) (length keys)" using assms(1) by simp
  obtain t2 where t2: "insertBatch t1 keys vals (sch (unat (capacity t1))) (sch (length keys)) = Return (True, t2)"
    "unat (used_buckets t2)
       = unat (used_buckets t1) + card (set keys - {KEY_INVALID} - live_keys (table t1))"
    using insertBatch_consistent[OF assms(6) lv sz con covr cov] by blast
  have "set keys - {KEY_INVALID} - live_keys (table t1) = {}" using live by auto
  then have "unat (used_buckets t2) = unat (used_buckets t1)" using t2(2) by simp
  then have u: "used_buckets t2 = used_buckets t1" by (rule word_unat_eq_iff[THEN iffD2])
  have a: "admissible_op (InsertBatch keys vals) ?m" using assms(8) ni by simp
  have sz': "unat (used_buckets t1) + batch_size (InsertBatch keys vals) \<le> max_projected"
    using sz by simp
  have so: "store_op sch (InsertBatch keys vals) ?m = ?m ++ map_of (zip keys vals)"
    using cov ni assms(7,8) by (rule store_op_distinct)
  have "perform sch (InsertBatch keys vals) t1 = Return t2" using t2(1) by simp
  then have r2: "represents t2 (?m ++ map_of (zip keys vals))"
    using perform_represents[OF assms(1) t1(2) a sz'] unfolding so by auto
  have d2: "set keys \<subseteq> dom (?m ++ map_of (zip keys vals))" using sub by auto
  have l31: "length keys < 2 ^ 31" using assms(5) by (simp add: max_projected_def)
  have "getBatch t2 keys (sch (length keys))
      = Return (Values (map (\<lambda>k. the ((?m ++ map_of (zip keys vals)) k)) keys), t2)"
    using getBatch_represents[OF r2 d2 l31 cov] assms(6) by simp
  then have "getBatch t2 keys (sch (length keys)) = Return (Values vals, t2)"
    using map_of_zip_map[OF assms(7,8)] by simp
  then show ?thesis using t1(1) t2(1) u by blast
qed

theorem update_in_place_witness:
  "(\<forall>n. covers (upt 0 n) n) \<and> GpuHashTable_constructor 8 = Return (empty_table 8)
   \<and> (8 :: int) < 2 ^ 31 \<and> admissible (upt 0) [InsertBatch [5] [100]] Map.empty
   \<and> total_keys [InsertBatch [5] [100]] + length [5 :: uint32] \<le> max_projected
   \<and> [5 :: uint32] \<noteq> [] \<and> distinct [5 :: uint32] \<and> length [200 :: uint32] = length [5 :: uint32]
   \<and> list_all (\<lambda>k. list_ex (inserts_key k) [InsertBatch [5] [100]]) [5]
   \<and> (\<exists>t1 t2. run (upt 0) [InsertBatch [5] [100]] (empty_table 8) = Return t1
          \<and> used_buckets t1 = 1
          \<and> insertBatch t1 [5] [200] [0..<unat (capacity t1)] [0..<1] = Return (True, t2)
          \<and> used_buckets t2 = 1
          \<and> getBatch t2 [5] [0..<1] = Return (Values [200], t2))"
proof -
  let ?ops = "[InsertBatch [5] [100]]"
  have h1: "\<forall>n. covers (upt 0 n) n" by (simp add: covers_upt)
  have h3: "(8 :: int) < 2 ^ 31" by simp
  have h4: "admissible (upt 0) ?ops Map.empty" by (simp add: KEY_INVALID_def)
  have h5: "total_keys ?ops + length [5 :: uint32] \<le> max_projected" by (simp add: max_projected_def)
  have h6: "[5 :: uint32] \<noteq> []" by simp
  have h7: "distinct [5 :: uint32]" by simp
  have h8: "length [200 :: uint32] = length [5 :: uint32]" by simp
  have h9: "list_all (\<lambda>k. list_ex (inserts_key k) ?ops) [5]" by simp
  have l: "length [5 :: uint32] = 1" by simp
  have e: "used_buckets (result (run (upt 0) ?ops (empty_table 8))) = 1" by code_simp
  obtain t1 t2 where t: "run (upt 0) ?ops (empty_table 8) = Return t1"
    "insertBatch t1 [5] [200] (upt 0 (unat (capacity t1))) (upt 0 (length [5 :: uint32])) = Return (True, t2)"
    "used_buckets t2 = used_buckets t1"
    "getBatch t2 [5] (upt 0 (length [5 :: uint32])) = Return (Values [200], t2)"
    using update_in_place[OF h1 constructor_empty_table h3 h4 h5 h6 h7 h8 h9] by blast
  have u1: "used_buckets t1 = 1" using e t(1) by (simp add: result_def)
  have "\<exists>t1 t2. run (upt 0) ?ops (empty_table 8) = Return t1
          \<and> used_buckets t1 = 1
          \<and> insertBatch t1 [5] [200] [0..<unat (capacity t1)] [0..<1] = Return (True, t2)
          \<and> used_buckets t2 = 1
          \<and> getBatch t2 [5] [0..<1] = Return (Values [200], t2)"
    using t u1 unfolding l by (intro exI[of _ t1] exI[of _ t2]) simp
  then show ?thesis using h1 constructor_empty_table h3 h4 h5 h6 h7 h8 h9 by blast
qed

section \<open>The occupancy count and the live keys\<close>

text \<open>
  Claim C7, as amended. \<open>consistent\<close> says that the table has \<^verbatim>\<open>capacity\<close> slots, that each
  stored key is found by probing from its home bucket, and that \<^verbatim>\<open>used\<close> is the number of
  distinct live keys. The constructor establishes it; \<^verbatim>\<open>insertBatch\<close> preserves it, \<^verbatim>\<open>used\<close>
  growing by the number of distinct keys of the batch that were not stored before; an empty
  batch and \<^verbatim>\<open>getBatch\<close> leave the table object as it is; and \<^verbatim>\<open>reshape(c)\<close> preserves it, with
  the same \<^verbatim>\<open>used\<close> and the same live keys, when \<open>c\<close> is at least the number of live keys.
\<close>

theorem used_counts_live_keys:
  "(GpuHashTable_constructor sz = Return t0 \<and> sz < 2 ^ 31 \<longrightarrow>
      consistent t0 \<and> used_buckets t0 = 0)
   \<and> (consistent t \<and> keys \<noteq> [] \<and> length keys \<le> length vals
        \<and> unat (used_buckets t) + length keys \<le> max_projected
        \<and> covers rsched (unat (capacity t)) \<and> covers isched (length keys) \<longrightarrow>
      (\<exists>t'. insertBatch t keys vals rsched isched = Return (True, t') \<and> consistent t'
         \<and> live_keys (table t') = live_keys (table t) \<union> (set keys - {KEY_INVALID})
         \<and> unat (used_buckets t')
              = unat (used_buckets t) + card (set keys - {KEY_INVALID} - live_keys (table t))))
   \<and> insertBatch t [] vals rsched isched = Return (False, t)
   \<and> (getBatch t ks gs = Return (r, t') \<longrightarrow> t' = t)
   \<and> (consistent t \<and> covers rsched (unat (capacity t))
        \<and> int (card (live_keys (table t))) \<le> c \<and> c < 2 ^ 31 \<longrightarrow>
      (\<exists>t'. reshape t c rsched = Return t' \<and> consistent t'
         \<and> used_buckets t' = used_buckets t \<and> live_keys (table t') = live_keys (table t)))"
proof -
  have 1: "GpuHashTable_constructor sz = Return t0 \<and> sz < 2 ^ 31 \<longrightarrow>
      consistent t0 \<and> used_buckets t0 = 0"
  proof
    assume a: "GpuHashTable_constructor sz = Return t0 \<and> sz < 2 ^ 31"
    then have "represents t0 Map.empty" "unat (used_buckets t0) = 0"
      using constructor_represents by blast+
    then show "consistent t0 \<and> used_buckets t0 = 0" by (simp add: represents_def unat_eq_0)
  qed
  have 2: "consistent t \<and> keys \<noteq> [] \<and> length keys \<le> length vals
        \<and> unat (used_buckets t) + length keys \<le> max_projected
        \<and> covers rsched (unat (capacity t)) \<and> covers isched (length keys) \<longrightarrow>
      (\<exists>t'. insertBatch t keys vals rsched isched = Return (True, t') \<and> consistent t'
         \<and> live_keys (table t') = live_keys (table t) \<union> (set keys - {KEY_INVALID})
         \<and> unat (used_buckets t')
              = unat (used_buckets t) + card (set keys - {KEY_INVALID} - live_keys (table t)))"
  proof
    assume a: "consistent t \<and> keys \<noteq> [] \<and> length keys \<le> length vals
        \<and> unat (used_buckets t) + length keys \<le> max_projected
        \<and> covers rsched (unat (capacity t)) \<and> covers isched (length keys)"
    then show "\<exists>t'. insertBatch t keys vals rsched isched = Return (True, t') \<and> consistent t'
         \<and> live_keys (table t') = live_keys (table t) \<union> (set keys - {KEY_INVALID})
         \<and> unat (used_buckets t')
              = unat (used_buckets t) + card (set keys - {KEY_INVALID} - live_keys (table t))"
      using insertBatch_consistent[of keys vals t rsched isched] by blast
  qed
  have 3: "insertBatch t [] vals rsched isched = Return (False, t)" by (simp add: insertBatch_def)
  have 4: "getBatch t ks gs = Return (r, t') \<longrightarrow> t' = t" using getBatch_state by blast
  have 5: "consistent t \<and> covers rsched (unat (capacity t))
        \<and> int (card (live_keys (table t))) \<le> c \<and> c < 2 ^ 31 \<longrightarrow>
      (\<exists>t'. reshape t c rsched = Return t' \<and> consistent t'
         \<and> used_buckets t' = used_buckets t \<and> live_keys (table t') = live_keys (table t))"
  proof
    assume a: "consistent t \<and> covers rsched (unat (capacity t))
        \<and> int (card (live_keys (table t))) \<le> c \<and> c < 2 ^ 31"
    then show "\<exists>t'. reshape t c rsched = Return t' \<and> consistent t'
         \<and> used_buckets t' = used_buckets t \<and> live_keys (table t') = live_keys (table t)"
      using reshape_consistent[of t rsched c] by blast
  qed
  show ?thesis using 1 2 3 4 5 by blast
qed

theorem used_counts_live_keys_witness:
  "GpuHashTable_constructor 8 = Return (empty_table 8) \<and> (8 :: int) < 2 ^ 31
   \<and> consistent (empty_table 8) \<and> used_buckets (empty_table 8) = 0
   \<and> consistent example_table \<and> [3, 4] \<noteq> ([] :: uint32 list)
   \<and> length [3, 4 :: uint32] \<le> length [31, 40 :: uint32]
   \<and> unat (used_buckets example_table) + length [3, 4 :: uint32] \<le> max_projected
   \<and> covers [0..<8] (unat (capacity example_table)) \<and> covers [0..<2] (length [3, 4 :: uint32])
   \<and> (\<exists>t'. insertBatch example_table [3, 4] [31, 40] [0..<8] [0..<2] = Return (True, t')
          \<and> consistent t' \<and> live_keys (table t') = {1, 2, 3, 4}
          \<and> unat (used_buckets example_table) = 3 \<and> unat (used_buckets t') = 4)
   \<and> getBatch example_table [1] [0..<1] = Return (Values [10], example_table)
   \<and> int (card (live_keys (table example_table))) \<le> 4 \<and> (4 :: int) < 2 ^ 31
   \<and> (\<exists>t'. reshape example_table 4 [0..<8] = Return t' \<and> consistent t'
          \<and> used_buckets t' = 3 \<and> live_keys (table t') = {1, 2, 3})"
proof -
  let ?t = example_table
  note i = example_table_inv and f = example_table_fields(1,2)
  note th = used_counts_live_keys[of 8 "empty_table 8" ?t "[3, 4]" "[31, 40]" "[0..<8]" "[0..<2]"
              "[1]" "[0..<1]" "Values [10]" ?t 4]
  have h0: "(8 :: int) < 2 ^ 31" by simp
  have c0: "consistent (empty_table 8) \<and> used_buckets (empty_table 8) = 0"
    using th constructor_empty_table h0 by blast
  have c: "consistent ?t" using i(1,2,3) by (simp add: consistent_def)
  have h1: "[3, 4] \<noteq> ([] :: uint32 list)" by simp
  have h2: "length [3, 4 :: uint32] \<le> length [31, 40 :: uint32]" by simp
  have h3: "unat (used_buckets ?t) + length [3, 4 :: uint32] \<le> max_projected"
    by (simp add: f max_projected_def)
  have h4: "covers [0..<8] (unat (capacity ?t))" using covers_upt[of 8] by (simp add: f)
  have h5: "covers [0..<2] (length [3, 4 :: uint32])" by (simp add: covers_def)
  have k: "(3 :: uint32) \<noteq> KEY_INVALID" "(4 :: uint32) \<noteq> KEY_INVALID" by (simp_all add: KEY_INVALID_def)
  have s1: "live_keys (table ?t) \<union> (set [3, 4] - {KEY_INVALID}) = {1, 2, 3, 4}"
    using k by (auto simp: i(4))
  have s2: "card (set [3, 4] - {KEY_INVALID} - live_keys (table ?t)) = 1"
  proof -
    have "set [3, 4] - {KEY_INVALID} - live_keys (table ?t) = {4 :: uint32}"
      using k by (auto simp: i(4))
    then show ?thesis by simp
  qed
  have u: "unat (used_buckets ?t) = 3" by (simp add: f)
  obtain t' where t': "insertBatch ?t [3, 4] [31, 40] [0..<8] [0..<2] = Return (True, t')"
    "consistent t'" "live_keys (table t') = live_keys (table ?t) \<union> (set [3, 4] - {KEY_INVALID})"
    "unat (used_buckets t')
       = unat (used_buckets ?t) + card (set [3, 4] - {KEY_INVALID} - live_keys (table ?t))"
    using th c h1 h2 h3 h4 h5 by blast
  have e1: "\<exists>t'. insertBatch ?t [3, 4] [31, 40] [0..<8] [0..<2] = Return (True, t')
          \<and> consistent t' \<and> live_keys (table t') = {1, 2, 3, 4}
          \<and> unat (used_buckets ?t) = 3 \<and> unat (used_buckets t') = 4"
    using t' unfolding s1 s2 u by (intro exI[of _ t']) simp
  have g: "getBatch ?t [1] [0..<1] = Return (Values [10], ?t)" by code_simp
  have h6: "int (card (live_keys (table ?t))) \<le> 4" by (simp add: i(4))
  have h7: "(4 :: int) < 2 ^ 31" by simp
  obtain t'' where t'': "reshape ?t 4 [0..<8] = Return t''" "consistent t''"
    "used_buckets t'' = used_buckets ?t" "live_keys (table t'') = live_keys (table ?t)"
    using th c h4 h6 h7 by blast
  have e2: "\<exists>t'. reshape ?t 4 [0..<8] = Return t' \<and> consistent t'
          \<and> used_buckets t' = 3 \<and> live_keys (table t') = {1, 2, 3}"
    using t'' by (intro exI[of _ t'']) (simp add: f i(4))
  show ?thesis using constructor_empty_table h0 c0 c h1 h2 h3 h4 h5 e1 g h6 h7 e2 by blast
qed

text \<open>
  Claim C7 as it was stated fails for a \<^verbatim>\<open>reshape\<close> to fewer slots than there are live keys:
  after three keys are inserted into a fresh table of capacity 8, \<^verbatim>\<open>reshape(2)\<close> keeps two of
  them and drops the third, and \<^verbatim>\<open>used\<close> is still 3.
\<close>

theorem used_counts_live_keys_counterexample:
  "obind (GpuHashTable_constructor 8) (run (upt 0) [InsertBatch [1, 2, 3] [10, 20, 30], Reshape 2])
     = Return \<lparr>table = [\<lparr>key = 3, value = 30\<rparr>, \<lparr>key = 2, value = 20\<rparr>],
               used_buckets = 3, capacity = 2\<rparr>
   \<and> card (live_keys [\<lparr>key = 3, value = 30\<rparr>, \<lparr>key = 2, value = 20\<rparr>]) = 2"
proof -
  have "obind (GpuHashTable_constructor 8) (run (upt 0) [InsertBatch [1, 2, 3] [10, 20, 30], Reshape 2])
     = Return \<lparr>table = [\<lparr>key = 3, value = 30\<rparr>, \<lparr>key = 2, value = 20\<rparr>],
               used_buckets = 3, capacity = 2\<rparr>"
    by code_simp
  moreover have "live_keys [\<lparr>key = 3, value = 30\<rparr>, \<lparr>key = 2, value = 20\<rparr>] = {3, 2}"
    by (auto simp: live_keys_def KEY_INVALID_def)
  ultimately show ?thesis by simp
qed

lemma lookup_Some_slot:
  assumes "lookup tbl cap k = Some v"
  shows "\<exists>j<unat cap. key (tbl ! j) = k \<and> value (tbl ! j) = v"
proof -
  have c: "cap \<noteq> 0"
  proof
    assume "cap = 0"
    then show False using assms by (simp add: lookup_def first_slot_def)
  qed
  obtain j where j: "first_slot (has_key tbl k) cap k = Some j" "value (tbl ! j) = v"
    using assms by (auto simp: lookup_def)
  then have "j < unat cap" "key (tbl ! j) = k"
    using c by (simp_all add: first_slot_Some is_first_def has_key_def)
  then show ?thesis using j(2) by blast
qed

section \<open>What an insert leaves alone\<close>

text \<open>
  Claim C9, as amended. Take a slot that holds, before the batch, a key that is neither the
  sentinel nor a key of the batch. When \<^verbatim>\<open>insertBatch\<close> does not resize, \<^verbatim>\<open>capacity\<close> is
  unchanged and the slot holds the same key and value when the call returns. When it does
  resize, the table is a new array: the pair is stored in some slot of it, and the key is
  looked up to the same value, but the slot with the same index need not hold it.
\<close>

theorem insertBatch_frame:
  assumes "keys \<noteq> []" "length keys \<le> length vals"
    and "unat (used_buckets t) + length keys \<le> max_projected"
    and "length (table t) = unat (capacity t)" "probe_inv (table t) (capacity t)"
    and "card (live_keys (table t)) \<le> unat (used_buckets t)"
    and "covers rsched (unat (capacity t))" "covers isched (length keys)"
    and "i < length (table t)" "key (table t ! i) \<noteq> KEY_INVALID" "key (table t ! i) \<notin> set keys"
  shows "\<exists>t'. insertBatch t keys vals rsched isched = Return (True, t')
      \<and> (\<not> resize_needed t (length keys) \<longrightarrow>
           capacity t' = capacity t \<and> table t' ! i = table t ! i)
      \<and> (\<exists>j<length (table t'). table t' ! j = table t ! i)
      \<and> lookup (table t') (capacity t') (key (table t ! i)) = Some (value (table t ! i))"
proof -
  let ?k = "key (table t ! i)"
  obtain t' where t': "insertBatch t keys vals rsched isched = Return (True, t')"
    "capacity t' = (if resize_needed t (length keys)
                        then word_of_nat (2 * f32 (unat (used_buckets t) + length keys))
                        else capacity t)"
    "length (table t') = unat (capacity t')"
    "\<forall>k. k \<noteq> KEY_INVALID \<longrightarrow>
            lookup (table t') (capacity t') k
              = batch_map keys vals (length keys) isched (lookup (table t) (capacity t)) k"
    using insertBatch_valid[OF assms(1-8)] by blast
  obtain t'' where t'': "insertBatch t keys vals rsched isched = Return (True, t'')"
    "\<not> resize_needed t (length keys) \<longrightarrow>
           (\<forall>i<unat (capacity t). key (table t ! i) \<noteq> KEY_INVALID \<and> key (table t ! i) \<notin> set keys
              \<longrightarrow> table t'' ! i = table t ! i)"
    using insertBatch_shape[OF assms(1,2,3,4,8), where rsched = rsched] by blast
  have eq: "t'' = t'" using t'(1) t''(1) by simp
  have a: "\<not> resize_needed t (length keys) \<longrightarrow>
           capacity t' = capacity t \<and> table t' ! i = table t ! i"
    using t'(2) t''(2) assms(4,9,10,11) unfolding eq by simp
  have c: "capacity t \<noteq> 0" using assms(4,9) by auto
  have "lookup (table t) (capacity t) ?k = Some (value (table t ! i))"
    using assms(5) c assms(4,9) _ assms(10) by (rule lookup_present) simp
  moreover have "?k \<notin> (\<lambda>i. keys ! i) ` {i \<in> set isched. i < length keys}"
    using assms(11) by auto
  ultimately have l: "lookup (table t') (capacity t') ?k = Some (value (table t ! i))"
    using t'(4) assms(10) batch_map_other[of ?k keys isched "length keys" vals] by simp
  obtain j where j: "j < unat (capacity t')" "key (table t' ! j) = ?k"
    "value (table t' ! j) = value (table t ! i)"
    using lookup_Some_slot[OF l] by blast
  have "table t' ! j = table t ! i" using j(2,3) by (intro TableEntry.equality) simp_all
  then have "\<exists>j<length (table t'). table t' ! j = table t ! i" using j(1) t'(3) by auto
  then show ?thesis using t'(1) a l by blast
qed

theorem insertBatch_frame_witness:
  "[3, 4] \<noteq> ([] :: uint32 list) \<and> length [3, 4 :: uint32] \<le> length [31, 40 :: uint32]
   \<and> unat (used_buckets example_table) + length [3, 4 :: uint32] \<le> max_projected
   \<and> length (table example_table) = unat (capacity example_table)
   \<and> probe_inv (table example_table) (capacity example_table)
   \<and> card (live_keys (table example_table)) \<le> unat (used_buckets example_table)
   \<and> covers [0..<8] (unat (capacity example_table)) \<and> covers [0..<2] (length [3, 4 :: uint32])
   \<and> 6 < length (table example_table) \<and> table example_table ! 6 = \<lparr>key = 1, value = 10\<rparr>
   \<and> key (table example_table ! 6) \<noteq> KEY_INVALID \<and> key (table example_table ! 6) \<notin> set [3, 4]
   \<and> \<not> resize_needed example_table (length [3, 4 :: uint32])
   \<and> (\<exists>t'. insertBatch example_table [3, 4] [31, 40] [0..<8] [0..<2] = Return (True, t')
          \<and> capacity t' = capacity example_table \<and> table t' ! 6 = \<lparr>key = 1, value = 10\<rparr>
          \<and> lookup (table t') (capacity t') 1 = Some 10)"
proof -
  let ?t = example_table
  note i = example_table_inv and f = example_table_fields
  have h1: "[3, 4] \<noteq> ([] :: uint32 list)" by simp
  have h2: "length [3, 4 :: uint32] \<le> length [31, 40 :: uint32]" by simp
  have h3: "unat (used_buckets ?t) + length [3, 4 :: uint32] \<le> max_projected"
    by (simp add: f(1,2) max_projected_def)
  have h6: "card (live_keys (table ?t)) \<le> unat (used_buckets ?t)" using i(3) by simp
  have h7: "covers [0..<8] (unat (capacity ?t))" using covers_upt[of 8] by (simp add: f(1,2))
  have h8: "covers [0..<2] (length [3, 4 :: uint32])" by (simp add: covers_def)
  have h9: "6 < length (table ?t)" by (simp add: f(3))
  have e: "table ?t ! 6 = \<lparr>key = 1, value = 10\<rparr>" by (simp add: f(3))
  have h10: "key (table ?t ! 6) \<noteq> KEY_INVALID" unfolding e by (simp add: KEY_INVALID_def)
  have h11: "key (table ?t ! 6) \<notin> set [3, 4]" unfolding e by simp
  have l: "length [3, 4 :: uint32] = 2" by simp
  have "\<not> resize_needed ?t 2" by code_simp
  then have r: "\<not> resize_needed ?t (length [3, 4 :: uint32])" unfolding l .
  obtain t' where t': "insertBatch ?t [3, 4] [31, 40] [0..<8] [0..<2] = Return (True, t')"
    "\<not> resize_needed ?t (length [3, 4 :: uint32]) \<longrightarrow>
           capacity t' = capacity ?t \<and> table t' ! 6 = table ?t ! 6"
    "lookup (table t') (capacity t') (key (table ?t ! 6)) = Some (value (table ?t ! 6))"
    using insertBatch_frame[OF h1 h2 h3 i(1,2) h6 h7 h8 h9 h10 h11] by blast
  have "\<exists>t'. insertBatch ?t [3, 4] [31, 40] [0..<8] [0..<2] = Return (True, t')
          \<and> capacity t' = capacity ?t \<and> table t' ! 6 = \<lparr>key = 1, value = 10\<rparr>
          \<and> lookup (table t') (capacity t') 1 = Some 10"
    using t' r unfolding e by (intro exI[of _ t']) simp
  then show ?thesis using h1 h2 h3 i(1,2) h6 h7 h8 h9 e h10 h11 r by blast
qed

text \<open>
  Claim C9 as it was stated fails when the batch triggers a resize: a fresh table of
  capacity 1 that received key 5 has capacity 2 and holds key 5 in slot 1; inserting key 7
  resizes it to capacity 4, where key 5 sits in slot 3, and slot 1 holds the sentinel.
\<close>

theorem insertBatch_frame_counterexample:
  "obind (GpuHashTable_constructor 1) (run (upt 0) [InsertBatch [5] [50]])
     = Return \<lparr>table = [\<lparr>key = KEY_INVALID, value = KEY_INVALID\<rparr>, \<lparr>key = 5, value = 50\<rparr>],
               used_buckets = 1, capacity = 2\<rparr>
   \<and> insertBatch \<lparr>table = [\<lparr>key = KEY_INVALID, value = KEY_INVALID\<rparr>, \<lparr>key = 5, value = 50\<rparr>],
                  used_buckets = 1, capacity = 2\<rparr> [7] [70] [0..<2] [0..<1]
     = Return (True,
         \<lparr>table = [\<lparr>key = 7, value = 70\<rparr>, \<lparr>key = KEY_INVALID, value = KEY_INVALID\<rparr>,
                   \<lparr>key = KEY_INVALID, value = KEY_INVALID\<rparr>, \<lparr>key = 5, value = 50\<rparr>],
          used_buckets = 2, capacity = 4\<rparr>)
   \<and> (5 :: uint32) \<noteq> KEY_INVALID \<and> (5 :: uint32) \<notin> set [7]"
proof -
  have 1: "obind (GpuHashTable_constructor 1) (run (upt 0) [InsertBatch [5] [50]])
     = Return \<lparr>table = [\<lparr>key = KEY_INVALID, value = KEY_INVALID\<rparr>, \<lparr>key = 5, value = 50\<rparr>],
               used_buckets = 1, capacity = 2\<rparr>"
    by code_simp
  have 2: "insertBatch \<lparr>table = [\<lparr>key = KEY_INVALID, value = KEY_INVALID\<rparr>, \<lparr>key = 5, value = 50\<rparr>],
                  used_buckets = 1, capacity = 2\<rparr> [7] [70] [0..<2] [0..<1]
     = Return (True,
         \<lparr>table = [\<lparr>key = 7, value = 70\<rparr>, \<lparr>key = KEY_INVALID, value = KEY_INVALID\<rparr>,
                   \<lparr>key = KEY_INVALID, value = KEY_INVALID\<rparr>, \<lparr>key = 5, value = 50\<rparr>],
          used_buckets = 2, capacity = 4\<rparr>)"
    by code_simp
  have 3: "(5 :: uint32) \<noteq> KEY_INVALID" by (simp add: KEY_INVALID_def)
  show ?thesis using 1 2 3 by simp
qed

lemma insertBatch_counter:
  assumes ne: "keys \<noteq> []" and lv: "length keys \<le> length vals"
    and size: "unat (used_buckets t) + length keys \<le> max_projected"
    and len: "length (table t) = unat (capacity t)"
    and cov: "covers isched (length keys)"
  shows "\<exists>t1 tbl cnt.
        (if resize_needed t (length keys)
         then reshape t (int (2 * f32 (unat (used_buckets t) + length keys))) rsched
         else Return t) = Return t1
      \<and> launch (kernelInsert (capacity t1) keys (take (length keys) vals)
                  (word_of_nat (length keys))) isched (table t1, 0) = Return (tbl, cnt)
      \<and> insertBatch t keys vals rsched isched
          = Return (True, t1\<lparr>table := tbl,
                     used_buckets := used_buckets t + (word_of_nat (length keys) - cnt)\<rparr>)
      \<and> unat cnt \<le> length keys
      \<and> unat (used_buckets t + (word_of_nat (length keys) - cnt))
          = unat (used_buckets t) + (length keys - unat cnt)"
proof -
  let ?n = "length keys"
  let ?x = "unat (used_buckets t) + ?n"
  let ?nk = "word_of_nat ?n :: uint32"
  have nk: "unat ?nk = ?n" using size by (intro unat_of_nat_len) (simp add: max_projected_def)
  have xw: "unat (used_buckets t + ?nk) = ?x" using size by (rule projected_unat)
  have x0: "used_buckets t + ?nk \<noteq> 0" using xw ne by (metis add_is_0 length_0_conv unat_0)
  obtain t1 where t1: "(if resize_needed t ?n then reshape t (int (2 * f32 ?x)) rsched else Return t) = Return t1"
    and c1: "capacity t1 = (if resize_needed t ?n then word_of_nat (2 * f32 ?x) else capacity t)"
    and u1: "unat (capacity t1) = (if resize_needed t ?n then 2 * f32 ?x else unat (capacity t))"
    and l1: "length (table t1) = unat (capacity t1)"
    and us1: "used_buckets t1 = used_buckets t"
    and tb1: "\<not> resize_needed t ?n \<longrightarrow> table t1 = table t"
  proof (cases "resize_needed t ?n")
    case True
    have p: "0 < f32 ?x" using ne by (intro f32_pos) simp
    then have a: "0 < int (2 * f32 ?x)" by simp
    have "2 * f32 ?x < 2 ^ 32" using size by (rule target_bound(2))
    then have b1: "2 * f32 ?x < 4294967296" by simp
    then have b: "int (2 * f32 ?x) < 2 ^ 32" by simp
    obtain new' where r: "reshape t (int (2 * f32 ?x)) rsched = Return (t\<lparr>table := new', capacity := word_of_int (int (2 * f32 ?x))\<rparr>)"
      "length new' = nat (int (2 * f32 ?x))"
      using reshape_returns[OF a b] by blast
    have w: "(word_of_int (int (2 * f32 ?x)) :: uint32) = word_of_nat (2 * f32 ?x)" by simp
    have "unat (word_of_nat (2 * f32 ?x) :: uint32) = 2 * f32 ?x"
      using b1 by (intro unat_of_nat_len) simp
    then show ?thesis using True r w by (intro that[of "t\<lparr>table := new', capacity := word_of_nat (2 * f32 ?x)\<rparr>"]) simp_all
  next
    case False
    then show ?thesis using len by (intro that[of t]) simp_all
  qed
  have room: "?x \<le> unat (capacity t1)"
  proof (cases "resize_needed t ?n")
    case True
    then show ?thesis using u1 f32_lower[of ?x] by simp
  next
    case False
    then have "unat (used_buckets t + ?nk) < unat (capacity t)"
      using x0 by (intro no_resize_room) (simp add: resize_needed_def)
    then show ?thesis using False u1 xw by simp
  qed
  then have cz: "capacity t1 \<noteq> 0" using ne by (metis add_is_0 le_zero_eq length_0_conv unat_0)
  have tk: "take ?n keys = keys" by simp
  obtain st' u where r: "launch (kernelInsert (capacity t1) keys (take ?n vals) ?nk) isched (table t1, 0) = Return st'"
    "length (fst st') = unat (capacity t1)" "u \<le> length (filter (\<lambda>i. i < unat ?nk) isched)"
    "snd st' = 0 + word_of_nat u"
    "\<forall>i<unat (capacity t1). key (table t1 ! i) \<noteq> KEY_INVALID
               \<and> key (table t1 ! i) \<notin> (\<lambda>i. keys ! i) ` {i \<in> set isched. i < unat ?nk}
              \<longrightarrow> fst st' ! i = table t1 ! i"
    using launch_kernelInsert_frame[OF cz, of "(table t1, 0)" keys "take ?n vals" ?nk isched] l1
    by auto
  have un: "u \<le> ?n" using r(3) covers_active_le[OF cov] nk by simp
  obtain tbl cnt where st: "st' = (tbl, cnt)" by (cases st')
  have cu: "cnt = word_of_nat u" using r(4) st by simp
  have "u < 2 ^ 32" using un size by (simp add: max_projected_def)
  then have uc: "unat cnt = u" unfolding cu by (rule unat_of_nat_len)
  have res: "insertBatch t keys vals rsched isched
      = Return (True, t1\<lparr>table := tbl, used_buckets := used_buckets t + (?nk - cnt)\<rparr>)"
    unfolding insertBatch_unfold[OF ne lv size] t1 using r(1) st us1
    by (simp add: obind_def)
  have "?nk - cnt = word_of_nat (?n - u)" using cu un by (simp add: of_nat_diff)
  moreover have "unat (used_buckets t + (word_of_nat (?n - u) :: uint32)) = unat (used_buckets t) + (?n - u)"
    using size by (intro projected_unat) simp
  ultimately have used: "unat (used_buckets t + (?nk - cnt)) = unat (used_buckets t) + (?n - unat cnt)"
    using uc by simp
  show ?thesis using t1 r(1) st res un uc used by (intro exI[of _ t1] exI[of _ tbl] exI[of _ cnt]) simp
qed

lemma kernelInsert_counter:
  assumes "cap \<noteq> 0" "length tbl0 = unat cap"
    and "kernelInsert cap dk dv nk idx (tbl0, cnt0) = Return (tbl1, cnt1)"
  shows "cnt1 = cnt0 \<or> cnt1 = cnt0 + 1"
proof -
  have "kernelInsert cap dk dv nk idx (tbl0, cnt0)
      = Return (if unat nk \<le> idx then (tbl0, cnt0) else insert_entry (tbl0, cnt0) cap (dk ! idx) (dv ! idx))"
    using assms(1,2) by (intro kernelInsert_thread) simp_all
  then have "cnt1 = snd (if unat nk \<le> idx then (tbl0, cnt0) else insert_entry (tbl0, cnt0) cap (dk ! idx) (dv ! idx))"
    using assms(3) by (metis outcome.inject snd_conv)
  then show ?thesis using insert_entry_count[of "(tbl0, cnt0)" cap "dk ! idx" "dv ! idx"]
    by (auto split: if_splits)
qed

lemma reshape_used: "reshape t c sched = Return t' \<Longrightarrow> used_buckets t' = used_buckets t"
  by (auto simp: reshape_def Let_def obind_Return_iff split: if_splits)

section \<open>The occupancy count never decreases\<close>

text \<open>
  Claim C10. \<^verbatim>\<open>getBatch\<close> and \<^verbatim>\<open>reshape\<close> return the table with \<^verbatim>\<open>used\<close> as it was. An
  \<^verbatim>\<open>insertBatch\<close> of \<open>n > 0\<close> keys returns the table with \<^verbatim>\<open>used + (n - count)\<close>, where \<open>count\<close>
  is the counter that the launch of \<^verbatim>\<open>kernelInsert\<close> started at 0 and handed back; \<open>count\<close> is
  at most \<open>n\<close>, each worker leaving the counter as it is or adding one to it, so that the new
  \<^verbatim>\<open>used\<close> is the old one plus \<open>n - count\<close> without wrapping around, and not below the old one.
  Hence \<^verbatim>\<open>used\<close> does not decrease along any sequence of public operations that returns.
  The counts are taken in the range where \<^verbatim>\<open>used + n\<close> stays representable.
\<close>

theorem used_buckets_monotone:
  "(getBatch t ks gs = Return (r, t') \<longrightarrow> used_buckets t' = used_buckets t)
   \<and> (reshape t c rsched = Return t' \<longrightarrow> used_buckets t' = used_buckets t)
   \<and> (keys \<noteq> [] \<and> length keys \<le> length vals
        \<and> unat (used_buckets t) + length keys \<le> max_projected
        \<and> length (table t) = unat (capacity t) \<and> covers isched (length keys) \<longrightarrow>
      (\<exists>t1 tbl cnt.
          (if resize_needed t (length keys)
           then reshape t (int (2 * f32 (unat (used_buckets t) + length keys))) rsched
           else Return t) = Return t1
        \<and> launch (kernelInsert (capacity t1) keys (take (length keys) vals)
                    (word_of_nat (length keys))) isched (table t1, 0) = Return (tbl, cnt)
        \<and> insertBatch t keys vals rsched isched
            = Return (True, t1\<lparr>table := tbl,
                       used_buckets := used_buckets t + (word_of_nat (length keys) - cnt)\<rparr>)
        \<and> unat cnt \<le> length keys
        \<and> unat (used_buckets t + (word_of_nat (length keys) - cnt))
            = unat (used_buckets t) + (length keys - unat cnt)
        \<and> used_buckets t \<le> used_buckets t + (word_of_nat (length keys) - cnt)))
   \<and> (cap \<noteq> 0 \<and> length tbl0 = unat cap
        \<and> kernelInsert cap dk dv nk idx (tbl0, cnt0) = Return (tbl1, cnt1) \<longrightarrow>
      cnt1 = cnt0 \<or> cnt1 = cnt0 + 1)
   \<and> ((\<forall>n. covers (sch n) n) \<and> length (table t) = unat (capacity t)
        \<and> unat (used_buckets t) + total_keys ops \<le> max_projected
        \<and> list_all in_int_range ops \<and> run sch ops t = Return t'' \<longrightarrow>
      used_buckets t \<le> used_buckets t'')"
proof -
  have 1: "getBatch t ks gs = Return (r, t') \<longrightarrow> used_buckets t' = used_buckets t"
    using getBatch_state by blast
  have 2: "reshape t c rsched = Return t' \<longrightarrow> used_buckets t' = used_buckets t"
    using reshape_used by blast
  have 3: "keys \<noteq> [] \<and> length keys \<le> length vals
        \<and> unat (used_buckets t) + length keys \<le> max_projected
        \<and> length (table t) = unat (capacity t) \<and> covers isched (length keys) \<longrightarrow>
      (\<exists>t1 tbl cnt.
          (if resize_needed t (length keys)
           then reshape t (int (2 * f32 (unat (used_buckets t) + length keys))) rsched
           else Return t) = Return t1
        \<and> launch (kernelInsert (capacity t1) keys (take (length keys) vals)
                    (word_of_nat (length keys))) isched (table t1, 0) = Return (tbl, cnt)
        \<and> insertBatch t keys vals rsched isched
            = Return (True, t1\<lparr>table := tbl,
                       used_buckets := used_buckets t + (word_of_nat (length keys) - cnt)\<rparr>)
        \<and> unat cnt \<le> length keys
        \<and> unat (used_buckets t + (word_of_nat (length keys) - cnt))
            = unat (used_buckets t) + (length keys - unat cnt)
        \<and> used_buckets t \<le> used_buckets t + (word_of_nat (length keys) - cnt))"
  proof
    assume a: "keys \<noteq> [] \<and> length keys \<le> length vals
        \<and> unat (used_buckets t) + length keys \<le> max_projected
        \<and> length (table t) = unat (capacity t) \<and> covers isched (length keys)"
    obtain t1 tbl cnt where c:
      "(if resize_needed t (length keys)
           then reshape t (int (2 * f32 (unat (used_buckets t) + length keys))) rsched
           else Return t) = Return t1"
      "launch (kernelInsert (capacity t1) keys (take (length keys) vals)
                    (word_of_nat (length keys))) isched (table t1, 0) = Return (tbl, cnt)"
      "insertBatch t keys vals rsched isched
            = Return (True, t1\<lparr>table := tbl,
                       used_buckets := used_buckets t + (word_of_nat (length keys) - cnt)\<rparr>)"
      "unat cnt \<le> length keys"
      "unat (used_buckets t + (word_of_nat (length keys) - cnt))
            = unat (used_buckets t) + (length keys - unat cnt)"
      using insertBatch_counter[where keys = keys and vals = vals and t = t
              and isched = isched and rsched = rsched] a by blast
    have "unat (used_buckets t) \<le> unat (used_buckets t + (word_of_nat (length keys) - cnt))"
      using c(5) by simp
    then have "used_buckets t \<le> used_buckets t + (word_of_nat (length keys) - cnt)"
      by (simp add: word_le_nat_alt)
    then show "\<exists>t1 tbl cnt.
          (if resize_needed t (length keys)
           then reshape t (int (2 * f32 (unat (used_buckets t) + length keys))) rsched
           else Return t) = Return t1
        \<and> launch (kernelInsert (capacity t1) keys (take (length keys) vals)
                    (word_of_nat (length keys))) isched (table t1, 0) = Return (tbl, cnt)
        \<and> insertBatch t keys vals rsched isched
            = Return (True, t1\<lparr>table := tbl,
                       used_buckets := used_buckets t + (word_of_nat (length keys) - cnt)\<rparr>)
        \<and> unat cnt \<le> length keys
        \<and> unat (used_buckets t + (word_of_nat (length keys) - cnt))
            = unat (used_buckets t) + (length keys - unat cnt)
        \<and> used_buckets t \<le> used_buckets t + (word_of_nat (length keys) - cnt)"
      using c by blast
  qed
  have 4: "cap \<noteq> 0 \<and> length tbl0 = unat cap
        \<and> kernelInsert cap dk dv nk idx (tbl0, cnt0) = Return (tbl1, cnt1) \<longrightarrow>
      cnt1 = cnt0 \<or> cnt1 = cnt0 + 1"
    using kernelInsert_counter by blast
  have 5: "(\<forall>n. covers (sch n) n) \<and> length (table t) = unat (capacity t)
        \<and> unat (used_buckets t) + total_keys ops \<le> max_projected
        \<and> list_all in_int_range ops \<and> run sch ops t = Return t'' \<longrightarrow>
      used_buckets t \<le> used_buckets t''"
  proof
    assume a: "(\<forall>n. covers (sch n) n) \<and> length (table t) = unat (capacity t)
        \<and> unat (used_buckets t) + total_keys ops \<le> max_projected
        \<and> list_all in_int_range ops \<and> run sch ops t = Return t''"
    then obtain u where u: "u \<le> total_keys ops"
      "unat (used_buckets t'') = unat (used_buckets t) + total_keys ops - u"
      using run_used[of sch t ops t''] by blast
    then have "unat (used_buckets t) \<le> unat (used_buckets t'')" by simp
    then show "used_buckets t \<le> used_buckets t''" by (simp add: word_le_nat_alt)
  qed
  show ?thesis using 1 2 3 4 5 by blast
qed

theorem used_buckets_monotone_witness:
  "getBatch example_table [1] [0..<1] = Return (Values [10], example_table)
   \<and> reshape example_table 16 [0..<8] = Return (result (reshape example_table 16 [0..<8]))
   \<and> used_buckets (result (reshape example_table 16 [0..<8])) = used_buckets example_table
   \<and> [3, 4] \<noteq> ([] :: uint32 list) \<and> length [3, 4 :: uint32] \<le> length [31, 40 :: uint32]
   \<and> unat (used_buckets example_table) + length [3, 4 :: uint32] \<le> max_projected
   \<and> length (table example_table) = unat (capacity example_table)
   \<and> covers [0..<2] (length [3, 4 :: uint32])
   \<and> \<not> resize_needed example_table (length [3, 4 :: uint32])
   \<and> snd (result (launch (kernelInsert 8 [3, 4] [31, 40] 2) [0..<2] (table example_table, 0))) = 1
   \<and> used_buckets example_table = 3
   \<and> insertBatch example_table [3, 4] [31, 40] [0..<8] [0..<2]
       = Return (True, example_table
           \<lparr>table := fst (result (launch (kernelInsert 8 [3, 4] [31, 40] 2) [0..<2]
                                  (table example_table, 0))),
            used_buckets := 4\<rparr>)
   \<and> (8 :: uint32) \<noteq> 0 \<and> length (table example_table) = unat (8 :: uint32)
   \<and> snd (result (kernelInsert 8 [3, 4] [31, 40] 2 0 (table example_table, 0))) = 0 + 1
   \<and> snd (result (kernelInsert 8 [3, 4] [31, 40] 2 1 (table example_table, 0))) = 0
   \<and> (\<forall>n. covers (upt 0 n) n)
   \<and> length (table (empty_table 8)) = unat (capacity (empty_table 8))
   \<and> unat (used_buckets (empty_table 8)) + total_keys example_ops \<le> max_projected
   \<and> list_all in_int_range example_ops
   \<and> run (upt 0) example_ops (empty_table 8) = Return (result (run (upt 0) example_ops (empty_table 8)))
   \<and> used_buckets (empty_table 8) \<le> used_buckets (result (run (upt 0) example_ops (empty_table 8)))"
proof -
  let ?t = example_table
  let ?L = "launch (kernelInsert 8 [3, 4] [31, 40] 2) [0..<2] (table ?t, 0)"
  let ?K0 = "kernelInsert 8 [3, 4] [31, 40] 2 0 (table ?t, 0)"
  let ?K1 = "kernelInsert 8 [3, 4] [31, 40] 2 1 (table ?t, 0)"
  let ?R = "run (upt 0) example_ops (empty_table 8)"
  note i = example_table_inv and f = example_table_fields(1,2)
  note th = used_buckets_monotone[where t = ?t and ks = "[1]" and gs = "[0..<1]"
      and r = "Values [10]" and t' = ?t and keys = "[3, 4]" and vals = "[31, 40]"
      and rsched = "[0..<8]" and isched = "[0..<2]"]
  have g: "getBatch ?t [1] [0..<1] = Return (Values [10], ?t)" by code_simp
  have r1: "reshape ?t 16 [0..<8] = Return (result (reshape ?t 16 [0..<8]))" by code_simp
  have r2: "used_buckets (result (reshape ?t 16 [0..<8])) = used_buckets ?t"
    using used_buckets_monotone[where t = ?t and c = 16 and rsched = "[0..<8]"
            and t' = "result (reshape ?t 16 [0..<8])"] r1 by blast
  have h1: "[3, 4] \<noteq> ([] :: uint32 list)" by simp
  have h2: "length [3, 4 :: uint32] \<le> length [31, 40 :: uint32]" by simp
  have h3: "unat (used_buckets ?t) + length [3, 4 :: uint32] \<le> max_projected"
    by (simp add: f max_projected_def)
  have h5: "covers [0..<2] (length [3, 4 :: uint32])" by (simp add: covers_def)
  have l: "length [3, 4 :: uint32] = 2" by simp
  have "\<not> resize_needed ?t 2" by code_simp
  then have nr: "\<not> resize_needed ?t (length [3, 4 :: uint32])" unfolding l .
  have e1: "?L = Return (result ?L)" by code_simp
  have e2: "snd (result ?L) = 1" by code_simp
  obtain t1 tbl cnt where c:
    "(if resize_needed ?t (length [3, 4 :: uint32])
      then reshape ?t (int (2 * f32 (unat (used_buckets ?t) + length [3, 4 :: uint32]))) [0..<8]
      else Return ?t) = Return t1"
    "launch (kernelInsert (capacity t1) [3, 4] (take (length [3, 4 :: uint32]) [31, 40])
                    (word_of_nat (length [3, 4 :: uint32]))) [0..<2] (table t1, 0) = Return (tbl, cnt)"
    "insertBatch ?t [3, 4] [31, 40] [0..<8] [0..<2]
            = Return (True, t1\<lparr>table := tbl,
                       used_buckets := used_buckets ?t + (word_of_nat (length [3, 4 :: uint32]) - cnt)\<rparr>)"
    using th h1 h2 h3 i(1) h5 by blast
  have t1: "t1 = ?t" using c(1) nr by simp
  have "?L = Return (tbl, cnt)" using c(2) unfolding t1 l by (simp add: f)
  then have tc: "tbl = fst (result ?L)" "cnt = 1" using e2 by (simp_all add: result_def)
  have ib: "insertBatch ?t [3, 4] [31, 40] [0..<8] [0..<2]
       = Return (True, ?t\<lparr>table := fst (result ?L), used_buckets := 4\<rparr>)"
    using c(3) unfolding t1 tc l by (simp add: f)
  have k1: "(8 :: uint32) \<noteq> 0" by simp
  have k2: "length (table ?t) = unat (8 :: uint32)" using i(1) by (simp add: f)
  have k3: "?K0 = Return (result ?K0)" by code_simp
  have k4: "snd (result ?K0) = 0 + 1"
  proof -
    have "snd (result ?K0) = 1" by code_simp
    then show ?thesis by simp
  qed
  have k5: "snd (result ?K1) = 0" by code_simp
  have s1: "\<forall>n. covers (upt 0 n) n" by (simp add: covers_upt)
  have s2: "length (table (empty_table 8)) = unat (capacity (empty_table 8))"
    by (simp add: empty_table_def cudaMemset_def)
  have s3: "unat (used_buckets (empty_table 8)) + total_keys example_ops \<le> max_projected"
    by (simp add: empty_table_def example_ops_def max_projected_def)
  have s4: "list_all in_int_range example_ops" by (simp add: example_ops_def)
  have s5: "?R = Return (result ?R)" by code_simp
  have s6: "used_buckets (empty_table 8) \<le> used_buckets (result ?R)"
    using used_buckets_monotone[where t = "empty_table 8" and sch = "upt 0" and ops = example_ops
            and t'' = "result ?R"] s1 s2 s3 s4 s5 by blast
  show ?thesis
    using g r1 r2 h1 h2 h3 i(1) h5 nr e2 f(2) ib k1 k2 k4 k5 s1 s2 s3 s4 s5 s6 by blast
qed

end
